theory Spec2Isabelle
  imports Complex_Main "HOL-Library.Sublist"
begin

section \<open>Values, errors and node kinds\<close>

text \<open>
  The development embeds \<open>model_partition/graph/control_flow_graph.py\<close> (the classes
  \<open>NodeTypes\<close>, \<open>Node\<close> and \<open>Graph\<close>) and \<open>weight_func\<close> of
  \<open>model_Inference/graph/partition_model.py\<close>.

  Python exceptions are values: a function that can raise returns \<open>exn + 'a\<close>, with
  \<open>Inl\<close> the exception that leaves the function. None of the embedded functions has a
  \<open>try\<close> block, so an exception raised inside one always leaves it.
\<close>

datatype exn =
    IndexError | TypeError | ValueError | StopIteration | AttributeError | RuntimeError
  | ShapeResolutionError | DanglingReferenceError

text \<open>
  The first six are Python's built-in exceptions. The last two are the error classes the
  specification names; the source defines no exception class, and the model produces
  these two values only if the tracing runtime raises them (see \<open>SizesRaises\<close> below).
\<close>

datatype NodeTypes = IN | BUFF_PARAM | LAYER | OP

text \<open>
  A node weight is whatever Python value the builder or the caller's \<open>weights\<close> dictionary
  put there: an integer (the element count of an input or parameter, or the default
  \<open>0\<close>), a float, a timing record (a named tuple with the attributes \<open>forward_time\<close>
  and \<open>backward_time\<close>), or a tuple without these attributes. Floats are modelled by exact
  rationals.
\<close>

datatype weight_val =
    WInt int
  | WFloat rat
  | WTiming rat rat
  | WPlainTuple

section \<open>The weighting functional\<close>




section \<open>Strings\<close>

text \<open>Python's \<open>str(n)\<close> for a non-negative integer: its decimal digits, most significant first.\<close>

definition digit_char :: "nat \<Rightarrow> char" where
  "digit_char d = ''0123456789'' ! d"

fun str_nat :: "nat \<Rightarrow> string" where
  "str_nat n = (if n < 10 then [digit_char n] else str_nat (n div 10) @ [digit_char (n mod 10)])"

declare str_nat.simps [simp del]

definition is_digit :: "char \<Rightarrow> bool" where
  "is_digit c = (c \<in> set ''0123456789'')"

text \<open>
  Reading decimal digits back (what \<open>int\<close> does on a string of digits); the source does not
  use it on these strings, it serves to show that \<open>str\<close> loses nothing.
\<close>

definition digit_val :: "char \<Rightarrow> nat" where
  "digit_val c = length (takeWhile (\<lambda>d. d \<noteq> c) ''0123456789'')"

definition nat_of_digits :: "string \<Rightarrow> nat" where
  "nat_of_digits cs = foldl (\<lambda>a c. 10 * a + digit_val c) 0 cs"

text \<open>Python's \<open>p in s\<close> on strings: \<open>p\<close> occurs in \<open>s\<close> as a contiguous substring.\<close>

fun contains_str :: "string \<Rightarrow> string \<Rightarrow> bool" where
  "contains_str p [] = (p = [])"
| "contains_str p (c # cs) = (prefix p (c # cs) \<or> contains_str p cs)"

section \<open>The object store\<close>

text \<open>
  \<open>Node\<close> objects and Python \<open>set\<close> objects live in a store and are named by addresses.
  A node's \<open>out_nodes\<close> and \<open>in_nodes\<close> attributes hold the address of a set object, and a
  set object holds node addresses, so that two nodes whose attributes name the same set
  object see each other's updates (as after \<open>copy(new_node)\<close>). \<open>Node\<close> defines neither
  \<open>__eq__\<close> nor \<open>__hash__\<close>: set membership is by object identity, here by address.
\<close>

type_synonym ref = nat
type_synonym sref = nat

record Node =
  scope :: string
  idx :: nat
  node_type :: NodeTypes
  out_nodes :: sref
  weight :: weight_val
  part :: int
  output_shape :: "int list list"
  in_nodes :: sref

text \<open>
  The state: the two stores with their allocation pointers (addresses from the pointer on are
  free), and the attributes of the one \<open>Graph\<close> object.
\<close>

record state =
  node_heap :: "ref \<Rightarrow> Node"
  set_heap :: "sref \<Rightarrow> ref set"
  next_node :: ref
  next_set :: sref
  nodes :: "ref list"
  profiled_layers :: "string list"
  num_inputs_buffs_params :: nat
  num_inputs :: nat
  buffer_param_names :: "string list"

abbreviation out_set :: "state \<Rightarrow> ref \<Rightarrow> ref set" where
  "out_set s n \<equiv> set_heap s (out_nodes (node_heap s n))"

abbreviation in_set :: "state \<Rightarrow> ref \<Rightarrow> ref set" where
  "in_set s n \<equiv> set_heap s (in_nodes (node_heap s n))"

text \<open>\<open>set()\<close> and a set comprehension: a new set object with the given elements.\<close>

definition new_set :: "ref set \<Rightarrow> state \<Rightarrow> sref \<times> state" where
  "new_set elems s =
     (next_set s, s\<lparr>set_heap := (set_heap s)(next_set s := elems), next_set := Suc (next_set s)\<rparr>)"

section \<open>The class Node\<close>

text \<open>
  \<^verbatim>\<open>
  def __init__(self, scope, idx, node_type, output_shape, incoming_nodes=None, weight=0, part=10):
      ...
      self.out_nodes = set()
      ...
      self.output_shape=[output_shape] if isinstance(output_shape,tuple) else output_shape
      self.in_nodes = incoming_nodes if isinstance(incoming_nodes, set) else set()
  \<close>
  Every caller passes a tuple as \<open>output_shape\<close>, and as \<open>incoming_nodes\<close> either nothing or a
  set object, which becomes the node's \<open>in_nodes\<close> itself (no copy is made).
\<close>

definition Node_init ::
  "string \<Rightarrow> nat \<Rightarrow> NodeTypes \<Rightarrow> int list \<Rightarrow> sref option \<Rightarrow> weight_val \<Rightarrow> state \<Rightarrow> ref \<times> state"
where
  "Node_init sc i t shape incoming_nodes w s =
     (let (outs, s1) = new_set {} s;
          (ins, s2) = (case incoming_nodes of Some r \<Rightarrow> (r, s1) | None \<Rightarrow> new_set {} s1);
          self = next_node s2
      in (self,
          s2\<lparr>node_heap := (node_heap s2)(self :=
                \<lparr>scope = sc, idx = i, node_type = t, out_nodes = outs, weight = w, part = 10,
                 output_shape = [shape], in_nodes = ins\<rparr>),
             next_node := Suc self\<rparr>))"

text \<open>
  The argument of an edge mutator is any Python value: a \<open>Node\<close>, a \<open>set\<close> object, or
  something else (\<open>None\<close>, a number, a list, a \<open>frozenset\<close>, ...). The two \<open>isinstance\<close> tests
  of each mutator exclude each other. \<open>discard\<close> and \<open>difference_update\<close> never raise.
\<close>

datatype arg = NodeArg ref | SetArg sref | OtherArg

definition add_out_node :: "ref \<Rightarrow> arg \<Rightarrow> state \<Rightarrow> state" where
  "add_out_node self a s =
     (let r = out_nodes (node_heap s self)
      in case a of
           NodeArg n \<Rightarrow> s\<lparr>set_heap := (set_heap s)(r := insert n (set_heap s r))\<rparr>
         | SetArg t \<Rightarrow> s\<lparr>set_heap := (set_heap s)(r := set_heap s r \<union> set_heap s t)\<rparr>
         | OtherArg \<Rightarrow> s)"

definition add_in_node :: "ref \<Rightarrow> arg \<Rightarrow> state \<Rightarrow> state" where
  "add_in_node self a s =
     (let r = in_nodes (node_heap s self)
      in case a of
           NodeArg n \<Rightarrow> s\<lparr>set_heap := (set_heap s)(r := insert n (set_heap s r))\<rparr>
         | SetArg t \<Rightarrow> s\<lparr>set_heap := (set_heap s)(r := set_heap s r \<union> set_heap s t)\<rparr>
         | OtherArg \<Rightarrow> s)"

definition remove_in_node :: "ref \<Rightarrow> arg \<Rightarrow> state \<Rightarrow> state" where
  "remove_in_node self a s =
     (let r = in_nodes (node_heap s self)
      in case a of
           NodeArg n \<Rightarrow> s\<lparr>set_heap := (set_heap s)(r := set_heap s r - {n})\<rparr>
         | SetArg t \<Rightarrow> s\<lparr>set_heap := (set_heap s)(r := set_heap s r - set_heap s t)\<rparr>
         | OtherArg \<Rightarrow> s)"

definition remove_out_node :: "ref \<Rightarrow> arg \<Rightarrow> state \<Rightarrow> state" where
  "remove_out_node self a s =
     (let r = out_nodes (node_heap s self)
      in case a of
           NodeArg n \<Rightarrow> s\<lparr>set_heap := (set_heap s)(r := set_heap s r - {n})\<rparr>
         | SetArg t \<Rightarrow> s\<lparr>set_heap := (set_heap s)(r := set_heap s r - set_heap s t)\<rparr>
         | OtherArg \<Rightarrow> s)"

section \<open>The trace\<close>

text \<open>
  The trace comes from the tracing runtime; the model holds what the builder reads of it.

  Of a trace input the builder reads \<open>node.type().sizes()\<close>, twice. The accessor belongs to
  the runtime: for an input with a declared shape it returns the dimensions; for one
  without, it either raises or returns \<open>None\<close>, depending on the runtime's version.
\<close>

datatype sizes_result = Sizes "int list" | SizesNone | SizesRaises exn

datatype trace_input = TraceInput (sizes: sizes_result)

text \<open>
  Of an output value of a trace op the builder reads its rendering as a string, matches it
  against \<open>.*Float\(([\d\s\,]+)\).*\<close>, splits the matched group at the commas and converts
  each piece with \<open>int\<close>. The model holds the outcome: no match, the dimensions, or a piece
  that \<open>int\<close> refuses.
\<close>

datatype shape_text = NoMatch | Dims "int list" | BadDims

text \<open>
  A trace op: \<open>scopeName()\<close>, \<open>kind()\<close>, the \<open>unique()\<close> numbers of its \<open>inputs()\<close> in
  order, and its \<open>outputs()\<close>, one entry per output slot.
\<close>

record trace_node =
  scopeName :: string
  kind :: string
  inputs :: "nat list"
  outputs :: "shape_text list"

text \<open>
  A declared output of the trace: \<open>int(n.uniqueName())\<close> is an integer when the name is
  numeric and raises \<open>ValueError\<close> otherwise.
\<close>

datatype unique_name = Numeric int | NonNumeric

record trace_graph =
  graph_inputs :: "trace_input list"
  graph_nodes :: "trace_node list"
  graph_outputs :: "unique_name list"

section \<open>The class Graph: construction\<close>

text \<open>
  \<^verbatim>\<open>
  for idx, node in enumerate(input_nodes):
      node_weight = 1
      for d in node.type().sizes():
          node_weight *= d
      if idx < self.num_inputs:
          node_type = NodeTypes.IN
          node_scope = f"input{idx}"
      else:
          node_type = NodeTypes.BUFF_PARAM
          node_scope = self.buffer_param_names[idx - self.num_inputs]
      output_shape = tuple(node.type().sizes())
      new_node = Node(node_scope, idx,node_type,output_shape, weight=node_weight)
      self.nodes.append(new_node)
      self.num_inputs_buffs_params += 1
  \<close>
  Iterating over \<open>None\<close> raises \<open>TypeError\<close>; a list index past the end raises
  \<open>IndexError\<close>.
\<close>

definition add_IO_node :: "nat \<Rightarrow> trace_input \<Rightarrow> state \<Rightarrow> exn + state" where
  "add_IO_node i node s =
     (case sizes node of
        SizesRaises e \<Rightarrow> Inl e
      | SizesNone \<Rightarrow> Inl TypeError
      | Sizes ds \<Rightarrow>
          let node_weight = fold (\<lambda>d w. w * d) ds 1;
              create = (\<lambda>t sc.
                let (new_node, s1) = Node_init sc i t ds None (WInt node_weight) s
                in Inr (s1\<lparr>nodes := nodes s1 @ [new_node],
                           num_inputs_buffs_params := Suc (num_inputs_buffs_params s1)\<rparr>))
          in if i < num_inputs s then create IN (''input'' @ str_nat i)
             else if i - num_inputs s < length (buffer_param_names s)
             then create BUFF_PARAM (buffer_param_names s ! (i - num_inputs s))
             else Inl IndexError)"

fun add_IO_nodes_from :: "nat \<Rightarrow> trace_input list \<Rightarrow> state \<Rightarrow> exn + state" where
  "add_IO_nodes_from i [] s = Inr s"
| "add_IO_nodes_from i (node # rest) s =
     (case add_IO_node i node s of
        Inl e \<Rightarrow> Inl e
      | Inr s' \<Rightarrow> add_IO_nodes_from (Suc i) rest s')"

definition add_IO_nodes :: "trace_input list \<Rightarrow> state \<Rightarrow> exn + state" where
  "add_IO_nodes input_nodes s = add_IO_nodes_from 0 input_nodes s"

text \<open>
  \<^verbatim>\<open>
  most_specific_scope = ""
  for layer_scope in self.profiled_layers:
      if scopeName.startswith(layer_scope) and len(layer_scope) > len(most_specific_scope):
          most_specific_scope = layer_scope
  return most_specific_scope
  \<close>
\<close>

definition find_encasing_layer :: "string list \<Rightarrow> string \<Rightarrow> string" where
  "find_encasing_layer layers scope_name =
     fold (\<lambda>layer_scope most_specific_scope.
             if prefix layer_scope scope_name \<and> length layer_scope > length most_specific_scope
             then layer_scope else most_specific_scope)
          layers []"

text \<open>
  \<open>{self.nodes[i.unique()] for i in trace_node.inputs()}\<close>: the elements are looked up in
  order, and the first index past the end of \<open>self.nodes\<close> raises \<open>IndexError\<close>.
\<close>

fun lookup_nodes :: "ref list \<Rightarrow> nat list \<Rightarrow> exn + ref list" where
  "lookup_nodes ns [] = Inr []"
| "lookup_nodes ns (i # rest) =
     (if i < length ns
      then (case lookup_nodes ns rest of Inl e \<Rightarrow> Inl e | Inr found \<Rightarrow> Inr (ns ! i # found))
      else Inl IndexError)"

text \<open>
  The shape of an op's first output (lines 165 to 172): \<open>next\<close> on the outputs of an op
  without output raises \<open>StopIteration\<close>.
\<close>

definition first_output_shape :: "shape_text list \<Rightarrow> exn + int list" where
  "first_output_shape outs =
     (case outs of
        [] \<Rightarrow> Inl StopIteration
      | NoMatch # _ \<Rightarrow> Inr [1]
      | Dims ds # _ \<Rightarrow> Inr ds
      | BadDims # _ \<Rightarrow> Inl ValueError)"

text \<open>
  One round of the loop over the output slots, for slot \<open>i\<close>:
  \<^verbatim>\<open>
  if i != 0:
      out_node: Node = copy(new_node)
      out_node.out_nodes=set()
      out_node.idx += i
      out_node.add_in_node(self.nodes[node_idx+i-1])
      self.nodes[node_idx+i-1].add_out_node(out_node)
      self.nodes.append(out_node)
      num_extra_nodes += 1
  \<close>
  \<open>copy\<close> makes a new \<open>Node\<close> object with the attribute values of \<open>new_node\<close>: the copy's
  \<open>in_nodes\<close> is the same set object as \<open>new_node\<close>'s. The state carries the local
  \<open>num_extra_nodes\<close> along.
\<close>

definition add_output_node :: "nat \<Rightarrow> ref \<Rightarrow> nat \<Rightarrow> nat \<times> state \<Rightarrow> exn + nat \<times> state" where
  "add_output_node node_idx new_node i st =
     (let (num_extra_nodes, s) = st
      in if i \<noteq> 0
         then
           let out_node = next_node s;
               s1 = s\<lparr>node_heap := (node_heap s)(out_node := node_heap s new_node),
                      next_node := Suc out_node\<rparr>;
               (fresh, s2) = new_set {} s1;
               s3 = s2\<lparr>node_heap := (node_heap s2)(out_node :=
                       (node_heap s2 out_node)\<lparr>out_nodes := fresh\<rparr>)\<rparr>;
               s4 = s3\<lparr>node_heap := (node_heap s3)(out_node :=
                       (node_heap s3 out_node)\<lparr>idx := idx (node_heap s3 out_node) + i\<rparr>)\<rparr>
           in if node_idx + i - 1 < length (nodes s4)
              then
                let prev = nodes s4 ! (node_idx + i - 1);
                    s5 = add_in_node out_node (NodeArg prev) s4;
                    s6 = add_out_node prev (NodeArg out_node) s5
                in Inr (Suc num_extra_nodes, s6\<lparr>nodes := nodes s6 @ [out_node]\<rparr>)
              else Inl IndexError
         else Inr (num_extra_nodes, s))"

fun add_output_nodes :: "nat \<Rightarrow> ref \<Rightarrow> nat list \<Rightarrow> nat \<times> state \<Rightarrow> exn + nat \<times> state" where
  "add_output_nodes node_idx new_node [] st = Inr st"
| "add_output_nodes node_idx new_node (i # rest) st =
     (case add_output_node node_idx new_node i st of
        Inl e \<Rightarrow> Inl e
      | Inr st' \<Rightarrow> add_output_nodes node_idx new_node rest st')"

text \<open>
  One round of the loop of \<open>_add_OP_nodes\<close>, for the trace op \<open>trace_node\<close> at position
  \<open>i\<close>, in two parts. The first part (lines 159 to 191) makes the op's node and appends
  it; it yields \<open>node_idx\<close>, \<open>new_node\<close> and the state. The loop
  \<open>for node in input_nodes: node.add_out_node(new_node)\<close> runs over a set; each round adds
  the same element to the out-set of another node, so the order of the rounds does not
  matter, and the model takes the order of the op's inputs.
\<close>

text \<open>
  The scope of a node for an op inside no profiled layer:
  \<open>trace_node.scopeName() + "/" + trace_node.kind() + str(idx)\<close>.
\<close>

definition raw_op_scope :: "trace_node \<Rightarrow> nat \<Rightarrow> string" where
  "raw_op_scope trace_node i = scopeName trace_node @ ''/'' @ kind trace_node @ str_nat i"

definition add_primary_node :: "nat \<Rightarrow> trace_node \<Rightarrow> nat \<times> state \<Rightarrow> exn + nat \<times> ref \<times> state" where
  "add_primary_node i trace_node st =
     (let (num_extra_nodes, s) = st;
          node_scope = find_encasing_layer (profiled_layers s) (scopeName trace_node)
      in case lookup_nodes (nodes s) (inputs trace_node) of
           Inl e \<Rightarrow> Inl e
         | Inr found \<Rightarrow>
             let (input_nodes, s1) = new_set (set found) s;
                 node_idx = num_inputs_buffs_params s1 + i + num_extra_nodes
             in case first_output_shape (outputs trace_node) of
                  Inl e \<Rightarrow> Inl e
                | Inr shape \<Rightarrow>
                    let (new_node, s2) =
                          (if node_scope \<noteq> []
                           then Node_init node_scope node_idx LAYER shape (Some input_nodes) (WInt 0) s1
                           else Node_init (raw_op_scope trace_node i)
                                  node_idx OP shape (Some input_nodes) (WInt 0) s1);
                        s3 = fold (\<lambda>node. add_out_node node (NodeArg new_node)) found s2
                    in Inr (node_idx, new_node, s3\<lparr>nodes := nodes s3 @ [new_node]\<rparr>))"

text \<open>The second part is the loop over the op's output slots (lines 194 to 205).\<close>

definition add_OP_node :: "nat \<Rightarrow> trace_node \<Rightarrow> nat \<times> state \<Rightarrow> exn + nat \<times> state" where
  "add_OP_node i trace_node st =
     (case add_primary_node i trace_node st of
        Inl e \<Rightarrow> Inl e
      | Inr (node_idx, new_node, s4) \<Rightarrow>
          add_output_nodes node_idx new_node [0 ..< length (outputs trace_node)] (fst st, s4))"

fun add_OP_nodes_from :: "nat \<Rightarrow> trace_node list \<Rightarrow> nat \<times> state \<Rightarrow> exn + nat \<times> state" where
  "add_OP_nodes_from i [] st = Inr st"
| "add_OP_nodes_from i (trace_node # rest) st =
     (case add_OP_node i trace_node st of
        Inl e \<Rightarrow> Inl e
      | Inr st' \<Rightarrow> add_OP_nodes_from (Suc i) rest st')"

definition add_OP_nodes :: "trace_node list \<Rightarrow> state \<Rightarrow> exn + state" where
  "add_OP_nodes OP_nodes s =
     (case add_OP_nodes_from 0 OP_nodes (0, s) of
        Inl e \<Rightarrow> Inl e
      | Inr (num_extra_nodes, s') \<Rightarrow> Inr s')"

section \<open>The class Graph: removal of nodes\<close>

text \<open>
  The two loops that disconnect a node to be removed:
  \<^verbatim>\<open>
  for in_node in node.in_nodes:
      in_node.remove_out_node(node)
      in_node.add_out_node(node.out_nodes)
  for out_node in node.out_nodes:
      out_node.remove_in_node(node)
      out_node.add_in_node(node.in_nodes)
  \<close>
\<close>

definition splice_pred :: "ref \<Rightarrow> ref \<Rightarrow> state \<Rightarrow> state" where
  "splice_pred node in_node s =
     (let s1 = remove_out_node in_node (NodeArg node) s
      in add_out_node in_node (SetArg (out_nodes (node_heap s1 node))) s1)"

definition splice_succ :: "ref \<Rightarrow> ref \<Rightarrow> state \<Rightarrow> state" where
  "splice_succ node out_node s =
     (let s1 = remove_in_node out_node (NodeArg node) s
      in add_in_node out_node (SetArg (in_nodes (node_heap s1 node))) s1)"

text \<open>
  Both loops run over a Python set, whose order of iteration is not determined by its
  elements, and the result can depend on the order (a round changes set objects that a
  later round reads). So disconnecting is a relation between the state before and the
  state after: each loop visits the elements the set has when the loop starts, once
  each, in some order. (The first loop changes out-set objects and iterates over an in-set
  object, the second the other way round; the builder never uses one set object as both,
  so the set iterated over does not change under the loop.)
\<close>

inductive disconnect :: "ref \<Rightarrow> state \<Rightarrow> state \<Rightarrow> bool" where
  disconnectI:
    "\<lbrakk>set xs = in_set s node; distinct xs; s1 = fold (splice_pred node) xs s;
      set ys = out_set s1 node; distinct ys; s2 = fold (splice_succ node) ys s1\<rbrakk>
     \<Longrightarrow> disconnect node s s2"

text \<open>
  One round of the \<open>while\<close> loop of \<open>_remove_nodes\<close>: the \<open>for\<close> loop over the nodes, which
  yields \<open>optimized_graph\<close> and \<open>changed\<close>. The condition is evaluated on the state the
  loop has reached.
\<close>

inductive sweep ::
  "(state \<Rightarrow> ref \<Rightarrow> bool) \<Rightarrow> ref list \<Rightarrow> state \<Rightarrow> ref list \<Rightarrow> bool \<Rightarrow> state \<Rightarrow> bool"
where
  sweep_Nil: "sweep condition [] s [] False s"
| sweep_remove:
    "\<lbrakk>condition s node; disconnect node s s1; sweep condition rest s1 kept changed s2\<rbrakk>
     \<Longrightarrow> sweep condition (node # rest) s kept True s2"
| sweep_keep:
    "\<lbrakk>\<not> condition s node; sweep condition rest s kept changed s2\<rbrakk>
     \<Longrightarrow> sweep condition (node # rest) s (node # kept) changed s2"

text \<open>
  \<^verbatim>\<open>
  def _remove_nodes(self, condition,reverse=False):
      changed=True
      while changed:
          changed=False
          optimized_graph = []
          nodes = reversed(self.nodes) if reverse else self.nodes
          for node in nodes: ...
          self.nodes = optimized_graph
  \<close>
\<close>

inductive remove_nodes :: "(state \<Rightarrow> ref \<Rightarrow> bool) \<Rightarrow> bool \<Rightarrow> state \<Rightarrow> state \<Rightarrow> bool" where
  remove_nodes_done:
    "sweep condition (if reverse then rev (nodes s) else nodes s) s kept False s1
     \<Longrightarrow> remove_nodes condition reverse s (s1\<lparr>nodes := kept\<rparr>)"
| remove_nodes_again:
    "\<lbrakk>sweep condition (if reverse then rev (nodes s) else nodes s) s kept True s1;
      remove_nodes condition reverse (s1\<lparr>nodes := kept\<rparr>) s2\<rbrakk>
     \<Longrightarrow> remove_nodes condition reverse s s2"

text \<open>\<open>lambda n: "::Constant" in n.scope\<close>\<close>

definition is_constant :: "state \<Rightarrow> ref \<Rightarrow> bool" where
  "is_constant s n = contains_str ''::Constant'' (scope (node_heap s n))"

definition remove_constant_nodes :: "state \<Rightarrow> state \<Rightarrow> bool" where
  "remove_constant_nodes s s' = remove_nodes is_constant False s s'"

text \<open>
  \<^verbatim>\<open>
  def _remove_nodes_that_go_nowhere(self,trace_outputs):
      out_list=list(trace_outputs)
      out_indices=list(map(lambda n: int(n.uniqueName()),out_list))
      def going_nowhere(node):
          return (not node.out_nodes) and (not node.idx in out_indices)
      self._remove_nodes(going_nowhere)
  \<close>
\<close>

fun out_indices_of :: "unique_name list \<Rightarrow> exn + int list" where
  "out_indices_of [] = Inr []"
| "out_indices_of (NonNumeric # rest) = Inl ValueError"
| "out_indices_of (Numeric i # rest) =
     (case out_indices_of rest of Inl e \<Rightarrow> Inl e | Inr is \<Rightarrow> Inr (i # is))"

definition going_nowhere :: "int list \<Rightarrow> state \<Rightarrow> ref \<Rightarrow> bool" where
  "going_nowhere out_indices s node =
     (out_set s node = {} \<and> int (idx (node_heap s node)) \<notin> set out_indices)"

inductive remove_nodes_that_go_nowhere :: "unique_name list \<Rightarrow> state \<Rightarrow> exn + state \<Rightarrow> bool" where
  go_nowhere_raises:
    "out_indices_of trace_outputs = Inl e \<Longrightarrow> remove_nodes_that_go_nowhere trace_outputs s (Inl e)"
| go_nowhere_removes:
    "\<lbrakk>out_indices_of trace_outputs = Inr out_indices;
      remove_nodes (going_nowhere out_indices) False s s'\<rbrakk>
     \<Longrightarrow> remove_nodes_that_go_nowhere trace_outputs s (Inr s')"

section \<open>The class Graph: indices, adjacency and weights\<close>

text \<open>
  \<^verbatim>\<open>
  def _normalize_indices(self):
      for idx, node in enumerate(self.nodes):
          node.idx = idx
  \<close>
\<close>

definition set_idx :: "nat \<times> ref \<Rightarrow> state \<Rightarrow> state" where
  "set_idx p s =
     (case p of (i, node) \<Rightarrow>
        s\<lparr>node_heap := (node_heap s)(node := (node_heap s node)\<lparr>idx := i\<rparr>)\<rparr>)"

definition normalize_indices :: "state \<Rightarrow> state" where
  "normalize_indices s = fold set_idx (enumerate 0 (nodes s)) s"


definition get_weights :: "state \<Rightarrow> weight_val list" where
  "get_weights s = map (\<lambda>node. weight (node_heap s node)) (nodes s)"

text \<open>
  The end of \<open>__init__\<close>:
  \<^verbatim>\<open>
  for node in self.nodes:
      node.weight = weights.get(node.scope, node.weight)
  \<close>
\<close>

definition set_weight :: "(string \<rightharpoonup> weight_val) \<Rightarrow> ref \<Rightarrow> state \<Rightarrow> state" where
  "set_weight weights node s =
     s\<lparr>node_heap := (node_heap s)(node := (node_heap s node)
         \<lparr>weight := (case weights (scope (node_heap s node)) of
                       Some w \<Rightarrow> w
                     | None \<Rightarrow> weight (node_heap s node))\<rparr>)\<rparr>"

definition apply_weights :: "(string \<rightharpoonup> weight_val) \<Rightarrow> state \<Rightarrow> state" where
  "apply_weights weights s = fold (set_weight weights) (nodes s) s"

section \<open>The class Graph: the constructor\<close>

text \<open>The store before the first allocation, and the \<open>Graph\<close> object as \<open>__init__\<close> sets it up.\<close>

definition no_node :: Node where
  "no_node = \<lparr>scope = [], idx = 0, node_type = OP, out_nodes = 0, weight = WInt 0, part = 10,
              output_shape = [], in_nodes = 0\<rparr>"

definition new_graph :: "string list \<Rightarrow> nat \<Rightarrow> string list \<Rightarrow> state" where
  "new_graph layers n_inputs names =
     \<lparr>node_heap = (\<lambda>_. no_node), set_heap = (\<lambda>_. {}), next_node = 0, next_set = 0,
      nodes = [], profiled_layers = layers, num_inputs_buffs_params = 0,
      num_inputs = n_inputs, buffer_param_names = names\<rparr>"

text \<open>
  \<^verbatim>\<open>
  def _build_graph(self, trace_graph):
      self._add_IO_nodes(trace_graph.inputs())
      self._add_OP_nodes(trace_graph.nodes())
      self._remove_constant_nodes()
      self._remove_nodes_that_go_nowhere(trace_graph.outputs())
      self._normalize_indices()
  \<close>
\<close>

inductive build_graph :: "trace_graph \<Rightarrow> state \<Rightarrow> exn + state \<Rightarrow> bool" where
  build_IO_raises:
    "add_IO_nodes (graph_inputs t) s = Inl e \<Longrightarrow> build_graph t s (Inl e)"
| build_OP_raises:
    "\<lbrakk>add_IO_nodes (graph_inputs t) s = Inr s1; add_OP_nodes (graph_nodes t) s1 = Inl e\<rbrakk>
     \<Longrightarrow> build_graph t s (Inl e)"
| build_outputs_raise:
    "\<lbrakk>add_IO_nodes (graph_inputs t) s = Inr s1; add_OP_nodes (graph_nodes t) s1 = Inr s2;
      remove_constant_nodes s2 s3; remove_nodes_that_go_nowhere (graph_outputs t) s3 (Inl e)\<rbrakk>
     \<Longrightarrow> build_graph t s (Inl e)"
| build_done:
    "\<lbrakk>add_IO_nodes (graph_inputs t) s = Inr s1; add_OP_nodes (graph_nodes t) s1 = Inr s2;
      remove_constant_nodes s2 s3; remove_nodes_that_go_nowhere (graph_outputs t) s3 (Inr s4)\<rbrakk>
     \<Longrightarrow> build_graph t s (Inr (normalize_indices s4))"

text \<open>
  \<open>Graph(profiled_layers, num_inputs, buffer_param_names, trace_graph, weights)\<close>: the
  result is the exception that leaves \<open>__init__\<close>, or the state with the finished graph.
\<close>

inductive Graph_init ::
  "string list \<Rightarrow> nat \<Rightarrow> string list \<Rightarrow> trace_graph \<Rightarrow> (string \<rightharpoonup> weight_val) \<Rightarrow> exn + state \<Rightarrow> bool"
where
  Graph_init_raises:
    "build_graph t (new_graph layers n_inputs names) (Inl e)
     \<Longrightarrow> Graph_init layers n_inputs names t weights (Inl e)"
| Graph_init_returns:
    "build_graph t (new_graph layers n_inputs names) (Inr s)
     \<Longrightarrow> Graph_init layers n_inputs names t weights (Inr (apply_weights weights s))"

section \<open>Well-formed stores\<close>

text \<open>
  What allocation guarantees: the nodes of the graph are allocated objects, the set objects
  of allocated nodes are allocated, and no node object is in the list of nodes twice.
\<close>

definition heap_ok :: "state \<Rightarrow> bool" where
  "heap_ok s =
     ((\<forall>n \<in> set (nodes s). n < next_node s)
      \<and> (\<forall>n. n < next_node s \<longrightarrow>
             out_nodes (node_heap s n) < next_set s \<and> in_nodes (node_heap s n) < next_set s)
      \<and> distinct (nodes s))"

text \<open>
  A later state of the construction extends an earlier one: allocated nodes keep their
  attributes, allocated sets keep their elements, and the list of nodes only grows at its
  end.
\<close>

definition extends :: "state \<Rightarrow> state \<Rightarrow> bool" where
  "extends s s' =
     (next_node s \<le> next_node s' \<and> next_set s \<le> next_set s'
      \<and> (\<forall>n. n < next_node s \<longrightarrow> node_heap s' n = node_heap s n)
      \<and> (\<forall>r. r < next_set s \<longrightarrow> set_heap s r \<subseteq> set_heap s' r)
      \<and> prefix (nodes s) (nodes s'))"

text \<open>
  What the removal of nodes does to the store: nodes keep their attributes, nothing is
  allocated, a set loses no element outside \<open>X\<close>, and finite sets stay finite.
\<close>

definition removes_only :: "ref set \<Rightarrow> state \<Rightarrow> state \<Rightarrow> bool" where
  "removes_only X s s' =
     (node_heap s' = node_heap s \<and> next_node s' = next_node s \<and> next_set s' = next_set s
      \<and> (\<forall>r x. x \<notin> X \<longrightarrow> x \<in> set_heap s r \<longrightarrow> x \<in> set_heap s' r)
      \<and> ((\<forall>r. finite (set_heap s r)) \<longrightarrow> (\<forall>r. finite (set_heap s' r))))"

text \<open>A condition on nodes that reads nothing but the attributes of nodes.\<close>

definition heap_determined :: "(state \<Rightarrow> ref \<Rightarrow> bool) \<Rightarrow> bool" where
  "heap_determined c = (\<forall>s s' n. node_heap s = node_heap s' \<longrightarrow> c s n = c s' n)"

section \<open>Properties of a graph\<close>


text \<open>The index of every node of the graph is its position in the list of nodes.\<close>

definition idx_is_position :: "state \<Rightarrow> bool" where
  "idx_is_position s = (\<forall>i < length (nodes s). idx (node_heap s (nodes s ! i)) = i)"

section \<open>Example traces\<close>

text \<open>
  A model with one input of shape \<open>(2, 3)\<close>, no parameters and no profiled layers; the
  state after \<open>_add_IO_nodes\<close> holds the input's node, at address \<open>0\<close>.
\<close>

definition ex_inputs :: "trace_input list" where
  "ex_inputs = [TraceInput (Sizes [2, 3])]"

definition ex_start :: state where
  "ex_start = projr (add_IO_nodes ex_inputs (new_graph [] 1 []))"

text \<open>An op that reads the input and has two output slots, and one with three.\<close>

definition ex_pair :: trace_node where
  "ex_pair = \<lparr>scopeName = ''Net'', kind = ''aten::max'', inputs = [0],
              outputs = [NoMatch, NoMatch]\<rparr>"

definition ex_triple :: trace_node where
  "ex_triple = \<lparr>scopeName = ''Net'', kind = ''aten::split'', inputs = [0],
                outputs = [NoMatch, NoMatch, NoMatch]\<rparr>"

text \<open>An op that reads the input and has one output slot, and the state after adding it.\<close>

definition ex_relu :: trace_node where
  "ex_relu = \<lparr>scopeName = ''Net'', kind = ''aten::relu'', inputs = [0], outputs = [NoMatch]\<rparr>"

definition ex_two :: state where
  "ex_two = projr (add_OP_nodes [ex_relu] ex_start)"

text \<open>Profiled layers, and an op inside one of them.\<close>

definition ex_layers :: "string list" where
  "ex_layers = [''Net/Seq[f]'', ''Net/Seq[f]/Linear[fc1]'', ''Net/Seq[g]'']"

definition ex_linear :: trace_node where
  "ex_linear = \<lparr>scopeName = ''Net/Seq[f]/Linear[fc1]'', kind = ''aten::addmm'', inputs = [0],
                outputs = [Dims [4, 5]]\<rparr>"

text \<open>
  Traces with ops whose kind contains \<open>::Constant\<close> and which read a value:
  \<open>relu, chunk, relu\<close> in a row, and \<open>chunk, chunk, relu\<close> in a row; and the states after
  \<open>_add_OP_nodes\<close>.
\<close>

definition ex_chunk :: "nat \<Rightarrow> trace_node" where
  "ex_chunk i = \<lparr>scopeName = ''Net'', kind = ''prim::ConstantChunk'', inputs = [i],
                 outputs = [NoMatch]\<rparr>"

definition ex_bridge :: state where
  "ex_bridge = projr (add_OP_nodes [ex_relu, ex_chunk 1, ex_relu\<lparr>inputs := [2]\<rparr>] ex_start)"

definition ex_chain :: state where
  "ex_chain = projr (add_OP_nodes [ex_chunk 0, ex_chunk 1, ex_relu\<lparr>inputs := [2]\<rparr>] ex_start)"

text \<open>
  A trace whose op reads a value that no node stands for, and a trace whose input has no
  declared shape (the runtime's accessor returning \<open>None\<close>).
\<close>

definition ex_dangling :: trace_graph where
  "ex_dangling = \<lparr>graph_inputs = ex_inputs, graph_nodes = [ex_relu\<lparr>inputs := [5]\<rparr>],
                   graph_outputs = []\<rparr>"

definition ex_shapeless :: trace_graph where
  "ex_shapeless = \<lparr>graph_inputs = [TraceInput SizesNone], graph_nodes = [], graph_outputs = []\<rparr>"

text \<open>A whole trace: the input, one op that reads it, and the op's value as declared output.\<close>

definition ex_trace :: trace_graph where
  "ex_trace = \<lparr>graph_inputs = ex_inputs, graph_nodes = [ex_relu], graph_outputs = [Numeric 1]\<rparr>"

section \<open>Properties of the weighting functional\<close>





section \<open>Properties of the construction\<close>

subsection \<open>The example traces\<close>

lemmas run_defs = add_IO_nodes_def add_IO_node_def Node_init_def new_set_def new_graph_def
  add_OP_nodes_def add_OP_node_def add_primary_node_def add_output_node_def
  first_output_shape_def find_encasing_layer_def add_in_node_def add_out_node_def Let_def

lemma ex_start_fields:
  "nodes ex_start = [0]" "next_node ex_start = 1" "next_set ex_start = 2"
  "num_inputs_buffs_params ex_start = 1" "profiled_layers ex_start = []"
  "out_nodes (node_heap ex_start 0) = 0" "in_nodes (node_heap ex_start 0) = 1"
  "set_heap ex_start 0 = {}" "set_heap ex_start 1 = {}"
  by (simp_all add: ex_start_def ex_inputs_def run_defs)

lemma ex_start_ok: "heap_ok ex_start"
  by (simp add: heap_ok_def ex_start_fields)

lemma ex_two_fields:
  "nodes ex_two = [0, Suc 0]"
  "out_set ex_two 0 = {Suc 0}" "in_set ex_two 0 = {}"
  "out_set ex_two (Suc 0) = {}" "in_set ex_two (Suc 0) = {0}"
  "idx (node_heap ex_two 0) = 0" "idx (node_heap ex_two (Suc 0)) = Suc 0"
  by (simp_all add: ex_two_def ex_relu_def ex_start_def ex_inputs_def run_defs)

subsection \<open>Allocation\<close>

lemma extends_refl: "extends s s"
  by (simp add: extends_def)

lemma extends_trans: "extends a b \<Longrightarrow> extends b c \<Longrightarrow> extends a c"
  unfolding extends_def
  by (meson dual_order.trans order_less_le_trans prefix_order.order_trans subset_trans | metis order_less_le_trans subset_trans prefix_order.order_trans dual_order.trans)+

lemma add_output_node_step:
  assumes ok: "heap_ok s" and P: "P < next_node s" and i: "i \<noteq> 0"
    and len: "node_idx + i - 1 < length (nodes s)"
  shows "\<exists>s'. add_output_node node_idx P i (ne, s) = Inr (Suc ne, s')
     \<and> nodes s' = nodes s @ [next_node s]
     \<and> next_node s' = Suc (next_node s)
     \<and> heap_ok s' \<and> extends s s'
     \<and> out_set s' (next_node s) = {}
     \<and> node_heap s' (next_node s) =
          (node_heap s P)\<lparr>out_nodes := next_set s, idx := idx (node_heap s P) + i\<rparr>
     \<and> nodes s ! (node_idx + i - 1) \<in> in_set s' (next_node s)
     \<and> next_node s \<in> out_set s' (nodes s ! (node_idx + i - 1))"
proof -
  let ?prev = "nodes s ! (node_idx + i - 1)"
  let ?r = "next_node s"
  have prevlt: "?prev < ?r"
    using ok len by (simp add: heap_ok_def)
  have prev: "?prev \<noteq> ?r" using prevlt by simp
  have Pr: "P \<noteq> ?r" using P by simp
  have allrefs: "\<And>n. n < ?r \<Longrightarrow> out_nodes (node_heap s n) < next_set s \<and> in_nodes (node_heap s n) < next_set s"
    using ok by (simp add: heap_ok_def)
  have refs: "out_nodes (node_heap s ?prev) \<noteq> next_set s" "in_nodes (node_heap s P) \<noteq> next_set s"
    using allrefs [OF prevlt] allrefs [OF P] by simp_all
  define s' where "s' = snd (projr (add_output_node node_idx P i (ne, s)))"
  have run: "add_output_node node_idx P i (ne, s) = Inr (Suc ne, s')"
    using i len unfolding s'_def
    by (simp add: add_output_node_def new_set_def Let_def add_in_node_def add_out_node_def)
  have nodes': "nodes s' = nodes s @ [?r]"
    using i len unfolding s'_def
    by (simp add: add_output_node_def new_set_def Let_def add_in_node_def add_out_node_def)
  have nn: "next_node s' = Suc ?r" and ns: "next_set s' = Suc (next_set s)"
    using i len unfolding s'_def
    by (simp_all add: add_output_node_def new_set_def Let_def add_in_node_def add_out_node_def)
  have heap: "node_heap s' = (node_heap s)(?r := (node_heap s P)\<lparr>out_nodes := next_set s, idx := idx (node_heap s P) + i\<rparr>)"
    using i len unfolding s'_def
    by (simp add: add_output_node_def new_set_def Let_def add_in_node_def add_out_node_def)
  have sets: "set_heap s' = (set_heap s)(next_set s := {},
       in_nodes (node_heap s P) := insert ?prev (set_heap s (in_nodes (node_heap s P))),
       out_nodes (node_heap s ?prev) := insert ?r
          (((set_heap s)(in_nodes (node_heap s P) := insert ?prev (set_heap s (in_nodes (node_heap s P)))))
             (out_nodes (node_heap s ?prev))))"
    using i len prev Pr refs unfolding s'_def
    by (simp add: add_output_node_def new_set_def Let_def add_in_node_def add_out_node_def fun_upd_twist)
  have ok': "heap_ok s'"
    using ok P unfolding heap_ok_def nodes' nn ns heap
    by (auto simp: less_Suc_eq)
  have ext: "extends s s'"
    unfolding extends_def nodes' nn ns heap sets
    by auto
  have empty: "out_set s' ?r = {}"
    using refs by (simp add: heap sets)
  have inP: "?prev \<in> in_set s' ?r"
    using refs by (simp add: heap sets)
  have outP: "?r \<in> out_set s' ?prev"
    using prev by (simp add: heap sets)
  show ?thesis
    using run nodes' nn ok' ext empty inP outP by (simp add: heap)
qed


lemma add_output_nodes_append:
  "add_output_nodes n P (xs @ ys) st =
     (case add_output_nodes n P xs st of Inl e \<Rightarrow> Inl e | Inr st' \<Rightarrow> add_output_nodes n P ys st')"
  by (induction xs arbitrary: st) (auto split: sum.splits)

lemma extends_P: "extends s s' \<Longrightarrow> P < next_node s \<Longrightarrow> P < next_node s'"
  by (simp add: extends_def)

lemma add_output_nodes_run:
  assumes "heap_ok s" "P < next_node s" "0 < a" "a \<le> b" "length (nodes s) = node_idx + a"
  shows "\<exists>s'. add_output_nodes node_idx P [a ..< b] (ne, s) = Inr (ne + (b - a), s')
     \<and> heap_ok s' \<and> extends s s' \<and> length (nodes s') = node_idx + b"
  using assms
proof (induction "b - a" arbitrary: a s ne)
  case 0
  then show ?case by (auto simp: extends_refl)
next
  case (Suc d)
  then have lt: "a < b" by simp
  have len: "node_idx + a - 1 < length (nodes s)" using Suc.prems by simp
  from add_output_node_step [OF Suc.prems(1) Suc.prems(2) _ len, of ne] Suc.prems(3)
  obtain s1 where step: "add_output_node node_idx P a (ne, s) = Inr (Suc ne, s1)"
    and n1: "nodes s1 = nodes s @ [next_node s]" and ok1: "heap_ok s1" and ext1: "extends s s1"
    by auto
  have "d = b - Suc a" using Suc.hyps(2) by simp
  moreover have "length (nodes s1) = node_idx + Suc a" using n1 Suc.prems by simp
  ultimately obtain s' where
    run: "add_output_nodes node_idx P [Suc a ..< b] (Suc ne, s1) = Inr (Suc ne + (b - Suc a), s')"
    and ok': "heap_ok s'" and ext': "extends s1 s'" and len': "length (nodes s') = node_idx + b"
    using Suc.hyps(1) [of "Suc a" s1 "Suc ne"] ok1 extends_P [OF ext1 Suc.prems(2)] lt
    by auto
  have "add_output_nodes node_idx P [a ..< b] (ne, s) = Inr (ne + (b - a), s')"
    using lt step run by (simp add: upt_conv_Cons)
  then show ?case using ok' extends_trans [OF ext1 ext'] len' by blast
qed


lemma lookup_nodes_set:
  "lookup_nodes ns is = Inr found \<Longrightarrow> set found \<subseteq> set ns \<and> found = map ((!) ns) is \<and> (\<forall>i \<in> set is. i < length ns)"
  by (induction "is" arbitrary: found) (auto split: if_splits sum.splits)

lemma fold_add_out_node:
  "node_heap (fold (\<lambda>node. add_out_node node (NodeArg v)) xs s) = node_heap s
   \<and> next_node (fold (\<lambda>node. add_out_node node (NodeArg v)) xs s) = next_node s
   \<and> next_set (fold (\<lambda>node. add_out_node node (NodeArg v)) xs s) = next_set s
   \<and> nodes (fold (\<lambda>node. add_out_node node (NodeArg v)) xs s) = nodes s
   \<and> num_inputs_buffs_params (fold (\<lambda>node. add_out_node node (NodeArg v)) xs s) = num_inputs_buffs_params s
   \<and> (\<forall>r. set_heap (fold (\<lambda>node. add_out_node node (NodeArg v)) xs s) r =
          (if r \<in> (\<lambda>n. out_nodes (node_heap s n)) ` set xs then insert v (set_heap s r) else set_heap s r))"
proof (induction xs arbitrary: s)
  case Nil
  then show ?case by simp
next
  case (Cons x xs)
  let ?s1 = "add_out_node x (NodeArg v) s"
  have h: "node_heap ?s1 = node_heap s" "next_node ?s1 = next_node s" "next_set ?s1 = next_set s"
    "nodes ?s1 = nodes s" "num_inputs_buffs_params ?s1 = num_inputs_buffs_params s"
    "set_heap ?s1 = (set_heap s)(out_nodes (node_heap s x) := insert v (set_heap s (out_nodes (node_heap s x))))"
    by (simp_all add: add_out_node_def Let_def)
  show ?case
    using Cons.IH [of ?s1] by (auto simp: h)
qed

lemma add_primary_node_step:
  assumes ok: "heap_ok s" and run: "add_primary_node i tn (ne, s) = Inr (node_idx, P, s4)"
  shows "node_idx = num_inputs_buffs_params s + i + ne \<and> P = next_node s
     \<and> nodes s4 = nodes s @ [P] \<and> heap_ok s4 \<and> extends s s4
     \<and> next_node s4 = Suc P
     \<and> num_inputs_buffs_params s4 = num_inputs_buffs_params s
     \<and> idx (node_heap s4 P) = node_idx
     \<and> out_set s4 P = {}
     \<and> outputs tn \<noteq> []"
proof -
  from run obtain found where lk: "lookup_nodes (nodes s) (inputs tn) = Inr found"
    by (auto simp: add_primary_node_def Let_def split: sum.splits)
  from run lk obtain shape where sh: "first_output_shape (outputs tn) = Inr shape"
    by (auto simp: add_primary_node_def Let_def new_set_def split: sum.splits)
  have ne: "outputs tn \<noteq> []"
    using sh by (auto simp: first_output_shape_def)
  have found: "\<forall>n \<in> set found. n < next_node s"
    using lookup_nodes_set [OF lk] ok by (auto simp: heap_ok_def)
  have frefs: "\<forall>n \<in> set found. out_nodes (node_heap s n) < next_set s"
    using found ok by (auto simp: heap_ok_def)
  define sc where "sc = (if find_encasing_layer (profiled_layers s) (scopeName tn) \<noteq> []
      then find_encasing_layer (profiled_layers s) (scopeName tn)
      else raw_op_scope tn i)"
  define ty where "ty = (if find_encasing_layer (profiled_layers s) (scopeName tn) \<noteq> [] then LAYER else OP)"
  define nd where "nd = \<lparr>scope = sc, idx = num_inputs_buffs_params s + i + ne, node_type = ty,
     out_nodes = Suc (next_set s), weight = WInt 0, part = 10, output_shape = [shape], in_nodes = next_set s\<rparr>"
  define s2 where "s2 = s\<lparr>set_heap := (set_heap s)(next_set s := set found, Suc (next_set s) := {}),
      next_set := Suc (Suc (next_set s)),
      node_heap := (node_heap s)(next_node s := nd), next_node := Suc (next_node s)\<rparr>"
  let ?s3 = "fold (\<lambda>node. add_out_node node (NodeArg (next_node s))) found s2"
  have res: "node_idx = num_inputs_buffs_params s + i + ne" "P = next_node s"
     "s4 = ?s3\<lparr>nodes := nodes ?s3 @ [next_node s]\<rparr>"
    using run lk sh
    by (auto simp: add_primary_node_def Let_def new_set_def Node_init_def s2_def nd_def sc_def ty_def
        split: if_splits)
  note f = fold_add_out_node [of "next_node s" found s2]
  have nh: "node_heap s4 = (node_heap s)(next_node s := nd)"
    and nn: "next_node s4 = Suc (next_node s)" and ns: "next_set s4 = Suc (Suc (next_set s))"
    and nds: "nodes s4 = nodes s @ [next_node s]"
    and nibp: "num_inputs_buffs_params s4 = num_inputs_buffs_params s"
    using f by (simp_all add: res s2_def)
  have sh4: "\<And>r. set_heap s4 r =
          (if r \<in> (\<lambda>n. out_nodes (node_heap s2 n)) ` set found then insert (next_node s) (set_heap s2 r) else set_heap s2 r)"
    using f by (simp add: res)
  have foundrefs: "\<And>n. n \<in> set found \<Longrightarrow> out_nodes (node_heap s2 n) = out_nodes (node_heap s n)"
    using found by (auto simp: s2_def)
  have notin: "Suc (next_set s) \<notin> (\<lambda>n. out_nodes (node_heap s2 n)) ` set found"
    using frefs foundrefs by force
  have ok4: "heap_ok s4"
    using ok unfolding heap_ok_def nh nn ns nds
    by (auto simp: less_Suc_eq nd_def)
  have ext: "extends s s4"
    unfolding extends_def nh nn ns nds
    by (auto simp: sh4 s2_def)
  have "out_nodes (node_heap s4 P) = Suc (next_set s)"
    by (simp add: nh res(2) nd_def)
  moreover have "set_heap s4 (Suc (next_set s)) = set_heap s2 (Suc (next_set s))"
    using notin by (simp add: sh4)
  moreover have "set_heap s2 (Suc (next_set s)) = {}"
    by (simp add: s2_def)
  ultimately have outP: "out_set s4 P = {}" by simp
  show ?thesis
    using res(1,2) nds ok4 ext nn nibp outP ne by (simp add: nh nd_def)
qed


lemma extends_nth: "extends s s' \<Longrightarrow> n < length (nodes s) \<Longrightarrow> nodes s' ! n = nodes s ! n"
  by (auto simp: extends_def prefix_def nth_append)

lemma extends_node: "extends s s' \<Longrightarrow> n < next_node s \<Longrightarrow> node_heap s' n = node_heap s n"
  by (simp add: extends_def)

lemma extends_member: "extends s s' \<Longrightarrow> r < next_set s \<Longrightarrow> x \<in> set_heap s r \<Longrightarrow> x \<in> set_heap s' r"
  by (auto simp: extends_def)

text \<open>
  C1, amended. Let a trace op with \<open>k\<close> output slots be added in a well-formed state whose
  list of nodes has the length the builder's counters say. Then the op adds \<open>k\<close> nodes,
  all new: its own (the primary, at position \<open>node_idx\<close>) and one per further slot, so
  \<open>k - 1\<close> secondary nodes. For each slot \<open>j\<close> with \<open>0 < j < k\<close>: right after the round
  of the loop that makes it (state \<open>t\<close>) the slot's node is the last of the list and its
  out-set is empty; and when the op is done (state \<open>s'\<close>) the node has the primary's
  scope, kind and shape, its index is the primary's plus \<open>j\<close>, the node of slot \<open>j - 1\<close>
  (the primary for \<open>j = 1\<close>, else the secondary made just before) is among its in-edges and
  has a forward edge to it.
\<close>

theorem secondary_nodes_chain:
  assumes ok: "heap_ok s" and len: "length (nodes s) = num_inputs_buffs_params s + i + ne"
    and prim: "add_primary_node i tn (ne, s) = Inr (node_idx, P, s4)"
    and j0: "0 < j" and jk: "j < length (outputs tn)"
  shows "\<exists>ne1 t ne2 s'.
      add_output_nodes node_idx P [0 ..< Suc j] (ne, s4) = Inr (ne1, t)
    \<and> add_OP_node i tn (ne, s) = Inr (ne2, s')
    \<and> length (nodes s') = length (nodes s) + length (outputs tn)
    \<and> ne2 = ne + (length (outputs tn) - 1)
    \<and> take (length (nodes s)) (nodes s') = nodes s
    \<and> distinct (nodes s')
    \<and> node_idx = length (nodes s)
    \<and> nodes s' ! node_idx = P
    \<and> length (nodes t) = node_idx + j + 1
    \<and> nodes t ! (node_idx + j) = nodes s' ! (node_idx + j)
    \<and> out_set t (nodes s' ! (node_idx + j)) = {}
    \<and> idx (node_heap s' (nodes s' ! (node_idx + j))) = idx (node_heap s' P) + j
    \<and> scope (node_heap s' (nodes s' ! (node_idx + j))) = scope (node_heap s' P)
    \<and> node_type (node_heap s' (nodes s' ! (node_idx + j))) = node_type (node_heap s' P)
    \<and> output_shape (node_heap s' (nodes s' ! (node_idx + j))) = output_shape (node_heap s' P)
    \<and> nodes s' ! (node_idx + j - 1) \<in> in_set s' (nodes s' ! (node_idx + j))
    \<and> nodes s' ! (node_idx + j) \<in> out_set s' (nodes s' ! (node_idx + j - 1))"
proof -
  let ?k = "length (outputs tn)"
  note p = add_primary_node_step [OF ok prim]
  have nidx: "node_idx = length (nodes s)" using p len by simp
  have ok4: "heap_ok s4" and P4: "P < next_node s4" and len4: "length (nodes s4) = node_idx + 1"
    using p nidx by simp_all
  \<comment> \<open>the rounds for the slots before \<open>j\<close>\<close>
  obtain u where runu: "add_output_nodes node_idx P [1 ..< j] (ne, s4) = Inr (ne + (j - 1), u)"
    and oku: "heap_ok u" and extu: "extends s4 u" and lenu: "length (nodes u) = node_idx + j"
    using add_output_nodes_run [OF ok4 P4 _ _ len4, of j ne] j0 by auto
  have Pu: "P < next_node u" using extends_P [OF extu P4] .
  \<comment> \<open>the round for slot \<open>j\<close>\<close>
  have lenj: "node_idx + j - 1 < length (nodes u)" using lenu j0 by simp
  obtain t where stept: "add_output_node node_idx P j (ne + (j - 1), u) = Inr (Suc (ne + (j - 1)), t)"
    and nt: "nodes t = nodes u @ [next_node u]" and nnt: "next_node t = Suc (next_node u)"
    and okt: "heap_ok t" and extt: "extends u t"
    and emp: "out_set t (next_node u) = {}"
    and nht: "node_heap t (next_node u) =
          (node_heap u P)\<lparr>out_nodes := next_set u, idx := idx (node_heap u P) + j\<rparr>"
    and inp: "nodes u ! (node_idx + j - 1) \<in> in_set t (next_node u)"
    and outp: "next_node u \<in> out_set t (nodes u ! (node_idx + j - 1))"
    using add_output_node_step [OF oku Pu _ lenj, of "ne + (j - 1)"] j0 by auto
  let ?r = "next_node u"
  let ?prev = "nodes u ! (node_idx + j - 1)"
  have lent: "length (nodes t) = node_idx + Suc j" using nt lenu by simp
  have Pt: "P < next_node t" using extends_P [OF extt Pu] .
  have runt: "add_output_nodes node_idx P [0 ..< Suc j] (ne, s4) = Inr (Suc (ne + (j - 1)), t)"
  proof -
    have "[0 ..< Suc j] = 0 # [1 ..< j] @ [j]"
      using j0 by (simp add: upt_rec [of 0])
    moreover have "add_output_node node_idx P 0 (ne, s4) = Inr (ne, s4)"
      by (simp add: add_output_node_def)
    ultimately show ?thesis
      using runu stept by (simp add: add_output_nodes_append)
  qed
  \<comment> \<open>the rounds for the slots after \<open>j\<close>\<close>
  obtain s' where runs: "add_output_nodes node_idx P [Suc j ..< ?k] (Suc (ne + (j - 1)), t)
        = Inr (Suc (ne + (j - 1)) + (?k - Suc j), s')"
    and oks: "heap_ok s'" and exts: "extends t s'" and lens: "length (nodes s') = node_idx + ?k"
    using add_output_nodes_run [OF okt Pt _ _ lent, of ?k "Suc (ne + (j - 1))"] jk by auto
  have full: "add_OP_node i tn (ne, s) = Inr (ne + (?k - 1), s')"
  proof -
    define xs where "xs = [0 ..< Suc j]"
    define ys where "ys = [Suc j ..< ?k]"
    have "[0 ..< ?k] = xs @ ys"
      unfolding xs_def ys_def
      using jk by (metis Suc_leI le0 upt_add_eq_append le_add_diff_inverse)
    moreover have "add_output_nodes node_idx P (xs @ ys) (ne, s4)
        = Inr (Suc (ne + (j - 1)) + (?k - Suc j), s')"
      using runt runs unfolding xs_def [symmetric] ys_def [symmetric]
      by (simp only: add_output_nodes_append sum.case)
    moreover have "Suc (ne + (j - 1)) + (?k - Suc j) = ne + (?k - 1)"
      using j0 jk by simp
    ultimately show ?thesis
      using prim by (simp add: add_OP_node_def)
  qed
  have ext_all: "extends s s'"
    using p extu extt exts extends_trans by blast
  have ext4: "extends s4 s'" using extu extt exts extends_trans by blast
  have extus: "extends u s'" using extt exts extends_trans by blast
  have tk: "take (length (nodes s)) (nodes s') = nodes s"
    using ext_all by (auto simp: extends_def prefix_def)
  have dist: "distinct (nodes s')" using oks by (simp add: heap_ok_def)
  have "nodes s4 ! node_idx = P"
    using p nidx by (simp add: nth_append)
  then have atP: "nodes s' ! node_idx = P"
    using extends_nth [OF ext4, of node_idx] len4 by simp
  have atr: "nodes s' ! (node_idx + j) = ?r"
    using extends_nth [OF exts, of "node_idx + j"] lent nt lenu by (simp add: nth_append)
  have atprev: "nodes s' ! (node_idx + j - 1) = ?prev"
    using extends_nth [OF extus, of "node_idx + j - 1"] lenj by simp
  have rt: "?r < next_node t" using nnt by simp
  have nhr: "node_heap s' ?r = (node_heap u P)\<lparr>out_nodes := next_set u, idx := idx (node_heap u P) + j\<rparr>"
    using extends_node [OF exts rt] nht by simp
  have nhP: "node_heap s' P = node_heap u P"
    using extends_node [OF extus Pu] .
  have prevt: "?prev < next_node t"
    using oku lenj nnt by (auto simp: heap_ok_def less_Suc_eq)
  have refr: "in_nodes (node_heap t ?r) < next_set t" "out_nodes (node_heap t ?prev) < next_set t"
    using okt rt prevt by (auto simp: heap_ok_def)
  have inp': "?prev \<in> in_set s' ?r"
    using extends_member [OF exts refr(1) inp] extends_node [OF exts rt] by simp
  have outp': "?r \<in> out_set s' ?prev"
    using extends_member [OF exts refr(2) outp] extends_node [OF exts prevt] by simp
  have c3: "length (nodes s') = length (nodes s) + ?k" using lens nidx by simp
  have c9: "length (nodes t) = node_idx + j + 1" using lent by simp
  have c10: "nodes t ! (node_idx + j) = nodes s' ! (node_idx + j)"
    using atr lenu by (simp add: nt nth_append)
  have c11: "out_set t (nodes s' ! (node_idx + j)) = {}" using emp atr by simp
  have c12: "idx (node_heap s' (nodes s' ! (node_idx + j))) = idx (node_heap s' P) + j"
    and c13: "scope (node_heap s' (nodes s' ! (node_idx + j))) = scope (node_heap s' P)"
    and c14: "node_type (node_heap s' (nodes s' ! (node_idx + j))) = node_type (node_heap s' P)"
    and c15: "output_shape (node_heap s' (nodes s' ! (node_idx + j))) = output_shape (node_heap s' P)"
    by (simp_all add: atr nhr nhP)
  have c16: "nodes s' ! (node_idx + j - 1) \<in> in_set s' (nodes s' ! (node_idx + j))"
    using inp' atr atprev by simp
  have c17: "nodes s' ! (node_idx + j) \<in> out_set s' (nodes s' ! (node_idx + j - 1))"
    using outp' atr atprev by simp
  show ?thesis
    apply (rule exI [of _ "Suc (ne + (j - 1))"])
    apply (rule exI [of _ t])
    apply (rule exI [of _ "ne + (?k - 1)"])
    apply (rule exI [of _ s'])
    apply (intro conjI)
    apply (rule runt full c3 refl tk dist nidx atP c9 c10 c11 c12 c13 c14 c15 c16 c17)+
    done
qed

theorem secondary_nodes_chain_witness:
  "heap_ok ex_start \<and> length (nodes ex_start) = num_inputs_buffs_params ex_start + 0 + 0
   \<and> (\<exists>s4. add_primary_node 0 ex_triple (0, ex_start) = Inr (1, 1, s4)
      \<and> (\<exists>ne1 t ne2 s'.
      add_output_nodes 1 1 [0 ..< Suc 2] (0, s4) = Inr (ne1, t)
    \<and> add_OP_node 0 ex_triple (0, ex_start) = Inr (ne2, s')
    \<and> length (nodes s') = length (nodes ex_start) + length (outputs ex_triple)
    \<and> ne2 = 0 + (length (outputs ex_triple) - 1)
    \<and> take (length (nodes ex_start)) (nodes s') = nodes ex_start
    \<and> distinct (nodes s')
    \<and> 1 = length (nodes ex_start)
    \<and> nodes s' ! 1 = 1
    \<and> length (nodes t) = 1 + 2 + 1
    \<and> nodes t ! (1 + 2) = nodes s' ! (1 + 2)
    \<and> out_set t (nodes s' ! (1 + 2)) = {}
    \<and> idx (node_heap s' (nodes s' ! (1 + 2))) = idx (node_heap s' 1) + 2
    \<and> scope (node_heap s' (nodes s' ! (1 + 2))) = scope (node_heap s' 1)
    \<and> node_type (node_heap s' (nodes s' ! (1 + 2))) = node_type (node_heap s' 1)
    \<and> output_shape (node_heap s' (nodes s' ! (1 + 2))) = output_shape (node_heap s' 1)
    \<and> nodes s' ! (1 + 2 - 1) \<in> in_set s' (nodes s' ! (1 + 2))
    \<and> nodes s' ! (1 + 2) \<in> out_set s' (nodes s' ! (1 + 2 - 1))))"
proof -
  have ok: "heap_ok ex_start" by (rule ex_start_ok)
  have len: "length (nodes ex_start) = num_inputs_buffs_params ex_start + 0 + 0"
    by (simp add: ex_start_fields)
  obtain s4 where prim: "add_primary_node 0 ex_triple (0, ex_start) = Inr (1, 1, s4)"
    by (simp add: add_primary_node_def ex_triple_def ex_start_fields run_defs)
  have j: "0 < (2::nat)" "2 < length (outputs ex_triple)"
    by (simp_all add: ex_triple_def)
  from secondary_nodes_chain [OF ok len prim j] ok len prim show ?thesis
    by blast
qed

text \<open>
  C1, as the specification states it, fails. For the op with three output slots, added
  after the one input: the nodes are the input \<open>0\<close>, the primary \<open>1\<close> and the secondary
  nodes \<open>2\<close> and \<open>3\<close>. The primary has no forward edge to the node \<open>3\<close> of slot 2 (the edge
  comes from the node of slot 1), and the in-edge set of node \<open>3\<close>, the last one made, holds
  three nodes, not the primary alone.
\<close>

theorem secondary_nodes_not_star:
  "\<exists>s. add_OP_nodes [ex_triple] ex_start = Inr s \<and> nodes s = [0, 1, 2, 3]
     \<and> 3 \<notin> out_set s 1 \<and> 0 \<in> in_set s 3 \<and> 1 \<in> in_set s 3 \<and> 2 \<in> in_set s 3"
  by (simp add: ex_start_def ex_inputs_def ex_triple_def run_defs upt_rec)

subsection \<open>Consistency of the edges\<close>

text \<open>
  C7 fails on an op with more than one output slot. \<open>copy(new_node)\<close> leaves the copy with
  the primary's \<open>in_nodes\<close> set object, and \<open>out_node.add_in_node\<close> then adds the primary to
  this one set. For the op with two output slots, added after the one input (nodes: the
  input \<open>0\<close>, the primary \<open>1\<close>, the secondary \<open>2\<close>): the primary is in its own in-edge set
  but not in its own out-edge set, and the input is in the in-edge set of the secondary
  node, which is not in the out-edge set of the input.
\<close>

theorem shared_in_nodes_break_consistency:
  "\<exists>s. add_OP_nodes [ex_pair] ex_start = Inr s \<and> nodes s = [0, 1, 2]
     \<and> 1 \<in> in_set s 1 \<and> 1 \<notin> out_set s 1 \<and> 0 \<in> in_set s 2 \<and> 2 \<notin> out_set s 0"
  by (simp add: ex_start_def ex_inputs_def ex_pair_def run_defs upt_rec)

section \<open>Properties of the class Node\<close>

text \<open>
  C10. An edge mutator called with a value that is neither a \<open>Node\<close> nor a \<open>set\<close> returns
  with the state as it was (the mutators have no path that raises, so they are functions
  from states to states), and so does \<open>remove_in_node\<close> and \<open>remove_out_node\<close> of a node
  that is not in the edge set.
\<close>

theorem edge_mutators_no_op:
  "add_out_node self OtherArg s = s \<and> add_in_node self OtherArg s = s
   \<and> remove_in_node self OtherArg s = s \<and> remove_out_node self OtherArg s = s
   \<and> (n \<notin> in_set s self \<longrightarrow> remove_in_node self (NodeArg n) s = s)
   \<and> (n \<notin> out_set s self \<longrightarrow> remove_out_node self (NodeArg n) s = s)"
  by (simp add: add_out_node_def add_in_node_def remove_in_node_def remove_out_node_def)

theorem edge_mutators_no_op_witness:
  "0 \<notin> in_set ex_two 0 \<and> remove_in_node 0 (NodeArg 0) ex_two = ex_two
   \<and> 0 \<notin> out_set ex_two 0 \<and> remove_out_node 0 (NodeArg 0) ex_two = ex_two
   \<and> add_out_node 0 OtherArg ex_two = ex_two"
  using edge_mutators_no_op [of 0 ex_two 0] by (simp add: ex_two_fields)

section \<open>Properties of the indices and the adjacency list\<close>

lemma fold_set_idx_frame:
  "fold set_idx ps s = s\<lparr>node_heap := node_heap (fold set_idx ps s)\<rparr>"
proof (induction ps arbitrary: s)
  case Nil
  show ?case by simp
next
  case (Cons p ps)
  have "fold set_idx (p # ps) s = fold set_idx ps (set_idx p s)" by simp
  also have "\<dots> = (set_idx p s)\<lparr>node_heap := node_heap (fold set_idx ps (set_idx p s))\<rparr>"
    by (rule Cons.IH)
  also have "\<dots> = s\<lparr>node_heap := node_heap (fold set_idx ps (set_idx p s))\<rparr>"
    by (cases p) (simp add: set_idx_def)
  finally show ?case by simp
qed

lemma fold_set_idx_nodes: "nodes (fold set_idx ps s) = nodes s"
  by (induction ps arbitrary: s) (auto simp: set_idx_def)

lemma fold_set_idx_other:
  "n \<notin> snd ` set ps \<Longrightarrow> node_heap (fold set_idx ps s) n = node_heap s n"
  by (induction ps arbitrary: s) (auto simp: set_idx_def)

lemma fold_set_idx_only_idx:
  "node_heap (fold set_idx ps s) n = (node_heap s n)\<lparr>idx := idx (node_heap (fold set_idx ps s) n)\<rparr>"
proof (induction ps arbitrary: s)
  case Nil
  show ?case by simp
next
  case (Cons p ps)
  obtain i m where p: "p = (i, m)" by (cases p)
  show ?case
    using Cons.IH [of "set_idx p s"]
    by (cases "n = m") (simp_all add: p set_idx_def)
qed

lemma fold_set_idx_last:
  "n \<in> snd ` set ps \<Longrightarrow>
     idx (node_heap (fold set_idx ps s) n) = idx (node_heap (fold set_idx ps s') n)"
proof (induction ps arbitrary: s s')
  case Nil
  then show ?case by simp
next
  case (Cons p ps)
  obtain i m where p: "p = (i, m)" by (cases p)
  show ?case
  proof (cases "n \<in> snd ` set ps")
    case True
    from Cons.IH [OF True] show ?thesis by simp
  next
    case False
    with Cons.prems have nm: "n = m" by (simp add: p)
    show ?thesis
      using False by (simp add: fold_set_idx_other) (simp add: p nm set_idx_def)
  qed
qed

lemma fold_set_idx_position:
  "distinct ns \<Longrightarrow> i < length ns \<Longrightarrow>
     idx (node_heap (fold set_idx (enumerate k ns) s) (ns ! i)) = k + i"
proof (induction ns arbitrary: k s i)
  case Nil
  then show ?case by simp
next
  case (Cons n ns)
  show ?case
  proof (cases i)
    case 0
    have "n \<notin> snd ` set (enumerate (Suc k) ns)"
      using Cons.prems(1) by (auto simp: in_set_enumerate_eq)
    then show ?thesis
      using 0 by (simp add: fold_set_idx_other) (simp add: set_idx_def)
  next
    case (Suc i')
    then show ?thesis
      using Cons.IH [of i' "Suc k" "set_idx (k, n) s"] Cons.prems by simp
  qed
qed

text \<open>
  C9. On a graph whose list of nodes holds no node object twice (the constructor only
  appends new objects and removes objects), \<open>_normalize_indices\<close> leaves the list as it
  is and makes the index of every node its position, so the indices read along the list
  are \<open>0, ..., N - 1\<close>; a second application changes nothing at all.
\<close>

theorem normalize_indices_positions:
  assumes "distinct (nodes s)"
  shows "nodes (normalize_indices s) = nodes s
     \<and> (\<forall>i < length (nodes s). idx (node_heap (normalize_indices s) (nodes s ! i)) = i)
     \<and> map (\<lambda>n. idx (node_heap (normalize_indices s) n)) (nodes s) = [0 ..< length (nodes s)]
     \<and> normalize_indices (normalize_indices s) = normalize_indices s"
proof -
  let ?ps = "enumerate 0 (nodes s)"
  let ?s1 = "normalize_indices s"
  have n1: "nodes ?s1 = nodes s"
    by (simp add: normalize_indices_def fold_set_idx_nodes)
  have pos: "\<forall>i < length (nodes s). idx (node_heap ?s1 (nodes s ! i)) = i"
    using fold_set_idx_position [OF assms, of _ 0 s] by (simp add: normalize_indices_def)
  have lst: "map (\<lambda>n. idx (node_heap ?s1 n)) (nodes s) = [0 ..< length (nodes s)]"
    using pos by (intro nth_equalityI) simp_all
  have heap: "node_heap (fold set_idx ?ps ?s1) n = node_heap ?s1 n" for n
  proof (cases "n \<in> snd ` set ?ps")
    case False
    then show ?thesis by (simp add: fold_set_idx_other)
  next
    case True
    have "node_heap (fold set_idx ?ps ?s1) n
        = (node_heap ?s1 n)\<lparr>idx := idx (node_heap (fold set_idx ?ps ?s1) n)\<rparr>"
      by (rule fold_set_idx_only_idx)
    also have "idx (node_heap (fold set_idx ?ps ?s1) n) = idx (node_heap (fold set_idx ?ps s) n)"
      by (rule fold_set_idx_last [OF True])
    also have "fold set_idx ?ps s = ?s1"
      by (simp add: normalize_indices_def)
    finally show ?thesis by simp
  qed
  have "normalize_indices ?s1 = fold set_idx ?ps ?s1"
    by (simp add: normalize_indices_def [of ?s1] n1)
  also have "\<dots> = ?s1\<lparr>node_heap := node_heap (fold set_idx ?ps ?s1)\<rparr>"
    by (rule fold_set_idx_frame)
  also have "node_heap (fold set_idx ?ps ?s1) = node_heap ?s1"
    using heap by (intro ext)
  finally have idem: "normalize_indices ?s1 = ?s1" by simp
  show ?thesis using n1 pos lst idem by simp
qed

theorem normalize_indices_positions_witness:
  "distinct (nodes (ex_two\<lparr>nodes := [Suc 0, 0]\<rparr>))
   \<and> idx (node_heap (normalize_indices (ex_two\<lparr>nodes := [Suc 0, 0]\<rparr>)) (Suc 0)) = 0
   \<and> idx (node_heap (normalize_indices (ex_two\<lparr>nodes := [Suc 0, 0]\<rparr>)) 0) = Suc 0
   \<and> normalize_indices (normalize_indices (ex_two\<lparr>nodes := [Suc 0, 0]\<rparr>))
       = normalize_indices (ex_two\<lparr>nodes := [Suc 0, 0]\<rparr>)"
proof -
  have d: "distinct (nodes (ex_two\<lparr>nodes := [Suc 0, 0]\<rparr>))" by simp
  from normalize_indices_positions [OF d] d show ?thesis
    by (simp add: less_Suc_eq)
qed



section \<open>Properties of the weight overlay\<close>

lemma fold_set_weight:
  "node_heap (fold (set_weight w) ns s) n =
     (if n \<in> set ns
      then (node_heap s n)\<lparr>weight := (case w (scope (node_heap s n)) of Some v \<Rightarrow> v | None \<Rightarrow> weight (node_heap s n))\<rparr>
      else node_heap s n)"
  by (induction ns arbitrary: s) (auto simp: set_weight_def split: option.splits)

lemma fold_set_weight_frame:
  "fold (set_weight w) ns s = s\<lparr>node_heap := node_heap (fold (set_weight w) ns s)\<rparr>"
proof (induction ns arbitrary: s)
  case Nil
  show ?case by simp
next
  case (Cons n ns)
  have "fold (set_weight w) (n # ns) s = fold (set_weight w) ns (set_weight w n s)" by simp
  also have "\<dots> = (set_weight w n s)\<lparr>node_heap := node_heap (fold (set_weight w) ns (set_weight w n s))\<rparr>"
    by (rule Cons.IH)
  also have "\<dots> = s\<lparr>node_heap := node_heap (fold (set_weight w) ns (set_weight w n s))\<rparr>"
    by (simp add: set_weight_def)
  finally show ?case by simp
qed

text \<open>
  C4, amended. The overlay at the end of \<open>__init__\<close> changes nothing but \<open>weight\<close>
  attributes: the weight of a node becomes the dictionary's value for its scope when the
  node is in the graph and its scope is a key, whatever the node's kind, and stays what it
  was otherwise.
\<close>

theorem apply_weights_by_scope:
  "apply_weights weights s = s\<lparr>node_heap := node_heap (apply_weights weights s)\<rparr>
   \<and> node_heap (apply_weights weights s) n =
       (node_heap s n)\<lparr>weight := weight (node_heap (apply_weights weights s) n)\<rparr>
   \<and> weight (node_heap (apply_weights weights s) n) =
       (if n \<in> set (nodes s) \<and> scope (node_heap s n) \<in> dom weights
        then the (weights (scope (node_heap s n)))
        else weight (node_heap s n))"
proof -
  have a: "apply_weights weights s = s\<lparr>node_heap := node_heap (apply_weights weights s)\<rparr>"
    unfolding apply_weights_def by (rule fold_set_weight_frame)
  have b: "node_heap (apply_weights weights s) n =
       (node_heap s n)\<lparr>weight := weight (node_heap (apply_weights weights s) n)\<rparr>"
    by (simp add: apply_weights_def fold_set_weight)
  have c: "weight (node_heap (apply_weights weights s) n) =
       (if n \<in> set (nodes s) \<and> scope (node_heap s n) \<in> dom weights
        then the (weights (scope (node_heap s n)))
        else weight (node_heap s n))"
    by (auto simp: apply_weights_def fold_set_weight split: option.splits)
  from a b c show ?thesis by (intro conjI)
qed

text \<open>
  C4, as the specification states it, fails: the overlay does not look at the kind of a
  node. With the key \<open>input0\<close> in the dictionary, the weight of the input node (kind
  \<open>IN\<close>, weight \<open>6\<close>, the number of elements) becomes the dictionary's value.
\<close>

theorem apply_weights_not_only_layers:
  "node_type (node_heap ex_start 0) = IN \<and> scope (node_heap ex_start 0) = ''input0''
   \<and> weight (node_heap ex_start 0) = WInt 6
   \<and> weight (node_heap (apply_weights [''input0'' \<mapsto> WInt 7] ex_start) 0) = WInt 7"
  by (simp add: apply_weights_def set_weight_def ex_start_def ex_inputs_def run_defs
      str_nat.simps digit_char_def)

section \<open>Properties of the scopes\<close>

lemma digit_val_char: "d < 10 \<Longrightarrow> digit_val (digit_char d) = d"
proof -
  assume "d < 10"
  then have "d \<in> {0, 1, 2, 3, 4, 5, 6, 7, 8, 9}" by auto
  then show ?thesis
    by (auto simp: digit_val_def digit_char_def)
qed

lemma is_digit_char: "d < 10 \<Longrightarrow> is_digit (digit_char d)"
proof -
  assume "d < 10"
  then have "d \<in> {0, 1, 2, 3, 4, 5, 6, 7, 8, 9}" by auto
  then show ?thesis
    by (auto simp: is_digit_def digit_char_def)
qed

lemma nat_of_digits_snoc: "nat_of_digits (cs @ [c]) = 10 * nat_of_digits cs + digit_val c"
  by (simp add: nat_of_digits_def)

lemma nat_of_digits_str_nat: "nat_of_digits (str_nat n) = n"
proof (induction n rule: str_nat.induct)
  case (1 n)
  show ?case
  proof (cases "n < 10")
    case True
    then show ?thesis
      by (simp add: str_nat.simps [of n] nat_of_digits_def digit_val_char)
  next
    case False
    then have "nat_of_digits (str_nat n) = 10 * (n div 10) + n mod 10"
      using 1 by (simp add: str_nat.simps [of n] nat_of_digits_snoc digit_val_char)
    then show ?thesis by simp
  qed
qed

lemma str_nat_inj: "str_nat i = str_nat j \<Longrightarrow> i = j"
  by (metis nat_of_digits_str_nat)

lemma str_nat_digits: "\<forall>c \<in> set (str_nat n). is_digit c"
proof (induction n rule: str_nat.induct)
  case (1 n)
  show ?case
  proof (cases "n < 10")
    case True
    then show ?thesis by (simp add: str_nat.simps [of n] is_digit_char)
  next
    case False
    then show ?thesis
      using 1 by (simp add: str_nat.simps [of n] is_digit_char)
  qed
qed

lemma takeWhile_digits_suffix:
  assumes "p \<noteq> []" "\<not> is_digit (last p)" "\<forall>c \<in> set ds. is_digit c"
  shows "takeWhile is_digit (rev (p @ ds)) = rev ds"
proof -
  obtain q c where p: "p = q @ [c]"
    using assms(1) by (cases p rule: rev_cases) auto
  have c: "\<not> is_digit c" using assms(2) by (simp add: p)
  have "takeWhile is_digit (rev ds @ (c # rev q)) = rev ds @ takeWhile is_digit (c # rev q)"
    using assms(3) by (intro takeWhile_append2) simp
  then show ?thesis
    using c by (simp add: p)
qed

lemma raw_prefix_last:
  assumes "k = [] \<or> \<not> is_digit (last k)"
  shows "sn @ ''/'' @ k \<noteq> [] \<and> \<not> is_digit (last (sn @ ''/'' @ k))"
  using assms by (auto simp: is_digit_def)

lemma raw_op_scope_inj:
  assumes a: "kind a = [] \<or> \<not> is_digit (last (kind a))"
    and b: "kind b = [] \<or> \<not> is_digit (last (kind b))"
    and eq: "raw_op_scope a i = raw_op_scope b j"
  shows "i = j"
proof -
  let ?pa = "scopeName a @ ''/'' @ kind a" and ?pb = "scopeName b @ ''/'' @ kind b"
  have "rev (str_nat i) = takeWhile is_digit (rev (?pa @ str_nat i))"
    using takeWhile_digits_suffix [of ?pa "str_nat i"] raw_prefix_last [OF a] str_nat_digits
    by simp
  also have "?pa @ str_nat i = ?pb @ str_nat j"
    using eq by (simp add: raw_op_scope_def)
  also have "takeWhile is_digit (rev (?pb @ str_nat j)) = rev (str_nat j)"
    using takeWhile_digits_suffix [of ?pb "str_nat j"] raw_prefix_last [OF b] str_nat_digits
    by simp
  finally show ?thesis by (simp add: str_nat_inj)
qed

lemma find_fold:
  defines "f sn \<equiv> (\<lambda>layer_scope most_specific_scope.
             if prefix layer_scope sn \<and> length layer_scope > length most_specific_scope
             then layer_scope else most_specific_scope)"
  shows "(fold (f sn) layers acc = acc \<or> (fold (f sn) layers acc \<in> set layers \<and> prefix (fold (f sn) layers acc) sn))
     \<and> length acc \<le> length (fold (f sn) layers acc)
     \<and> (\<forall>l \<in> set layers. prefix l sn \<longrightarrow> length l \<le> length (fold (f sn) layers acc))"
proof (induction layers arbitrary: acc)
  case Nil
  show ?case by simp
next
  case (Cons l layers)
  show ?case
    using Cons.IH [of "f sn l acc"] by (auto simp: f_def split: if_splits)
qed

lemma find_encasing_layer_longest:
  "prefix (find_encasing_layer layers sn) sn
   \<and> (find_encasing_layer layers sn = [] \<or> find_encasing_layer layers sn \<in> set layers)
   \<and> (\<forall>l \<in> set layers. prefix l sn \<longrightarrow> length l \<le> length (find_encasing_layer layers sn))"
  using find_fold [of sn layers "[]"] by (auto simp: find_encasing_layer_def)

lemma add_primary_node_tag:
  assumes run: "add_primary_node i tn (ne, s) = Inr (node_idx, P, s4)"
  shows "node_type (node_heap s4 P) =
           (if find_encasing_layer (profiled_layers s) (scopeName tn) \<noteq> [] then LAYER else OP)
       \<and> scope (node_heap s4 P) =
           (if find_encasing_layer (profiled_layers s) (scopeName tn) \<noteq> []
            then find_encasing_layer (profiled_layers s) (scopeName tn) else raw_op_scope tn i)"
proof -
  have nh: "node_heap (fold (\<lambda>node. add_out_node node (NodeArg v)) xs t) = node_heap t" for v xs t
    using fold_add_out_node [of v xs t] by simp
  show ?thesis
    using run
    by (auto simp: add_primary_node_def Let_def new_set_def Node_init_def nh
        split: sum.splits if_splits)
qed

lemma add_primary_node_returns:
  assumes "lookup_nodes (nodes s) (inputs tn) = Inr found"
    and "first_output_shape (outputs tn) = Inr shape"
  shows "\<exists>node_idx P s4. add_primary_node i tn (ne, s) = Inr (node_idx, P, s4)"
  using assms by (simp add: add_primary_node_def Let_def split_def)

text \<open>
  C8, amended. The scope \<open>_find_encasing_layer\<close> returns is a prefix of the op's scope name
  and at least as long as every declared scope that is a prefix of it; it is a declared
  scope unless it is empty, and it is not empty when some non-empty declared scope is a
  prefix. The op's node is tagged \<open>LAYER\<close> with that scope when it is not empty, and
  \<open>OP\<close> with the scope \<open>scopeName/kind\<close> followed by the op's position when no declared
  scope is a prefix. The synthesized scopes of two ops at different positions differ when
  neither op's kind ends in a decimal digit.
\<close>

theorem encasing_layer_and_raw_scope:
  "prefix (find_encasing_layer (profiled_layers s) (scopeName tn)) (scopeName tn)
   \<and> (\<forall>l \<in> set (profiled_layers s). prefix l (scopeName tn) \<longrightarrow> length l \<le> length (find_encasing_layer (profiled_layers s) (scopeName tn)))
   \<and> (find_encasing_layer (profiled_layers s) (scopeName tn) \<noteq> [] \<longrightarrow> find_encasing_layer (profiled_layers s) (scopeName tn) \<in> set (profiled_layers s))
   \<and> ((\<exists>l \<in> set (profiled_layers s). l \<noteq> [] \<and> prefix l (scopeName tn)) \<longrightarrow> find_encasing_layer (profiled_layers s) (scopeName tn) \<noteq> [])
   \<and> (add_primary_node i tn (ne, s) = Inr (node_idx, P, s4) \<longrightarrow>
        (find_encasing_layer (profiled_layers s) (scopeName tn) \<noteq> [] \<longrightarrow>
           node_type (node_heap s4 P) = LAYER \<and> scope (node_heap s4 P) = find_encasing_layer (profiled_layers s) (scopeName tn))
      \<and> ((\<forall>l \<in> set (profiled_layers s). \<not> prefix l (scopeName tn)) \<longrightarrow>
           node_type (node_heap s4 P) = OP \<and> scope (node_heap s4 P) = raw_op_scope tn i))
   \<and> ((kind a = [] \<or> \<not> is_digit (last (kind a))) \<and> (kind b = [] \<or> \<not> is_digit (last (kind b)))
        \<and> m \<noteq> n \<longrightarrow> raw_op_scope a m \<noteq> raw_op_scope b n)"
proof -
  let ?r = "find_encasing_layer (profiled_layers s) (scopeName tn)"
  note fl = find_encasing_layer_longest [of "profiled_layers s" "scopeName tn"]
  have c1: "prefix ?r (scopeName tn)" using fl by simp
  have c2: "\<forall>l \<in> set (profiled_layers s). prefix l (scopeName tn) \<longrightarrow> length l \<le> length ?r"
    using fl by simp
  have c3: "?r \<noteq> [] \<longrightarrow> ?r \<in> set (profiled_layers s)" using fl by blast
  have c4: "(\<exists>l \<in> set (profiled_layers s). l \<noteq> [] \<and> prefix l (scopeName tn)) \<longrightarrow> ?r \<noteq> []"
    using c2 by fastforce
  have none: "?r = []" if "\<forall>l \<in> set (profiled_layers s). \<not> prefix l (scopeName tn)"
    using that fl by blast
  have c5: "add_primary_node i tn (ne, s) = Inr (node_idx, P, s4) \<longrightarrow>
        (?r \<noteq> [] \<longrightarrow> node_type (node_heap s4 P) = LAYER \<and> scope (node_heap s4 P) = ?r)
      \<and> ((\<forall>l \<in> set (profiled_layers s). \<not> prefix l (scopeName tn)) \<longrightarrow>
           node_type (node_heap s4 P) = OP \<and> scope (node_heap s4 P) = raw_op_scope tn i)"
    using add_primary_node_tag [of i tn ne s node_idx P s4] none by auto
  have c6: "(kind a = [] \<or> \<not> is_digit (last (kind a))) \<and> (kind b = [] \<or> \<not> is_digit (last (kind b)))
        \<and> m \<noteq> n \<longrightarrow> raw_op_scope a m \<noteq> raw_op_scope b n"
    using raw_op_scope_inj [of a b m n] by blast
  from c1 c2 c3 c4 c5 c6 show ?thesis by (intro conjI)
qed

theorem encasing_layer_and_raw_scope_witness:
  "find_encasing_layer ex_layers (scopeName ex_linear) = ''Net/Seq[f]/Linear[fc1]''
   \<and> (\<exists>node_idx P s4.
         add_primary_node 0 ex_linear (0, ex_start\<lparr>profiled_layers := ex_layers\<rparr>) = Inr (node_idx, P, s4)
       \<and> node_type (node_heap s4 P) = LAYER
       \<and> scope (node_heap s4 P) = ''Net/Seq[f]/Linear[fc1]'')
   \<and> (\<exists>node_idx P s4.
         add_primary_node 3 ex_relu (0, ex_start) = Inr (node_idx, P, s4)
       \<and> node_type (node_heap s4 P) = OP
       \<and> scope (node_heap s4 P) = ''Net/aten::relu3'')
   \<and> raw_op_scope ex_relu 0 \<noteq> raw_op_scope ex_relu 1"
proof -
  have r: "find_encasing_layer ex_layers (scopeName ex_linear) = ''Net/Seq[f]/Linear[fc1]''"
    by (simp add: find_encasing_layer_def ex_layers_def ex_linear_def)
  obtain ni P s4 where run:
    "add_primary_node 0 ex_linear (0, ex_start\<lparr>profiled_layers := ex_layers\<rparr>) = Inr (ni, P, s4)"
    using add_primary_node_returns [of "ex_start\<lparr>profiled_layers := ex_layers\<rparr>" ex_linear "[0]" "[4, 5]" 0 0]
    by (auto simp: ex_linear_def ex_start_fields first_output_shape_def)
  have pl: "profiled_layers (ex_start\<lparr>profiled_layers := ex_layers\<rparr>) = ex_layers" by simp
  have layer: "node_type (node_heap s4 P) = LAYER \<and> scope (node_heap s4 P) = ''Net/Seq[f]/Linear[fc1]''"
    using encasing_layer_and_raw_scope
      [of "ex_start\<lparr>profiled_layers := ex_layers\<rparr>" ex_linear 0 0 ni P s4, unfolded pl r] run
    by blast
  obtain ni' P' s4' where run': "add_primary_node 3 ex_relu (0, ex_start) = Inr (ni', P', s4')"
    using add_primary_node_returns [of ex_start ex_relu "[0]" "[1]" 3 0]
    by (auto simp: ex_relu_def ex_start_fields first_output_shape_def)
  have sc: "raw_op_scope ex_relu 3 = ''Net/aten::relu3''"
    by (simp add: raw_op_scope_def ex_relu_def str_nat.simps digit_char_def)
  have pl': "profiled_layers ex_start = []" by (simp add: ex_start_fields)
  have raw: "node_type (node_heap s4' P') = OP \<and> scope (node_heap s4' P') = ''Net/aten::relu3''"
    using encasing_layer_and_raw_scope [of ex_start ex_relu 3 0 ni' P' s4', unfolded pl' sc] run'
    by simp
  have k: "\<not> is_digit (last (kind ex_relu))" by (simp add: ex_relu_def is_digit_def)
  have uniq: "raw_op_scope ex_relu 0 \<noteq> raw_op_scope ex_relu 1"
    using encasing_layer_and_raw_scope [where a = ex_relu and b = ex_relu and m = 0 and n = 1] k
    by simp
  have A: "\<exists>node_idx P s4.
         add_primary_node 0 ex_linear (0, ex_start\<lparr>profiled_layers := ex_layers\<rparr>) = Inr (node_idx, P, s4)
       \<and> node_type (node_heap s4 P) = LAYER
       \<and> scope (node_heap s4 P) = ''Net/Seq[f]/Linear[fc1]''"
    by (rule exI [of _ ni], rule exI [of _ P], rule exI [of _ s4])
      (intro conjI run layer [THEN conjunct1] layer [THEN conjunct2])
  have B: "\<exists>node_idx P s4.
         add_primary_node 3 ex_relu (0, ex_start) = Inr (node_idx, P, s4)
       \<and> node_type (node_heap s4 P) = OP
       \<and> scope (node_heap s4 P) = ''Net/aten::relu3''"
    by (rule exI [of _ ni'], rule exI [of _ P'], rule exI [of _ s4'])
      (intro conjI run' raw [THEN conjunct1] raw [THEN conjunct2])
  from r A B uniq show ?thesis by (intro conjI)
qed

text \<open>
  C8, as the specification states it, fails in its last part: the synthesized scope is not
  unique among the nodes tagged \<open>OP\<close>. The secondary node of an op with two output slots
  is a copy of the primary and has its scope; and the position is appended to the kind
  without a separator, so that kind \<open>aten::log2\<close> at position 0 and kind \<open>aten::log\<close> at
  position 20 under the same scope name give the same string.
\<close>

theorem raw_op_scope_not_unique:
  "\<exists>s. add_OP_nodes [ex_pair] ex_start = Inr s \<and> nodes s = [0, 1, 2]
     \<and> node_type (node_heap s 1) = OP \<and> node_type (node_heap s 2) = OP
     \<and> scope (node_heap s 1) = scope (node_heap s 2)
     \<and> raw_op_scope (ex_relu\<lparr>kind := ''aten::log2''\<rparr>) 0
         = raw_op_scope (ex_relu\<lparr>kind := ''aten::log''\<rparr>) 20"
proof -
  have "raw_op_scope (ex_relu\<lparr>kind := ''aten::log2''\<rparr>) 0
         = raw_op_scope (ex_relu\<lparr>kind := ''aten::log''\<rparr>) 20"
    by (simp add: raw_op_scope_def ex_relu_def str_nat.simps digit_char_def)
  then show ?thesis
    by (simp add: ex_start_def ex_inputs_def ex_pair_def run_defs upt_rec)
qed

section \<open>Properties of the removal of nodes\<close>

lemma splice_pred_heap:
  "node_heap (splice_pred K u s) = node_heap s"
  "nodes (splice_pred K u s) = nodes s"
  "next_node (splice_pred K u s) = next_node s"
  "next_set (splice_pred K u s) = next_set s"
  by (simp_all add: splice_pred_def remove_out_node_def add_out_node_def Let_def)

lemma splice_succ_heap:
  "node_heap (splice_succ K u s) = node_heap s"
  "nodes (splice_succ K u s) = nodes s"
  "next_node (splice_succ K u s) = next_node s"
  "next_set (splice_succ K u s) = next_set s"
  by (simp_all add: splice_succ_def remove_in_node_def add_in_node_def Let_def)

lemma splice_pred_sets:
  "set_heap (splice_pred K u s) =
     (set_heap s)(out_nodes (node_heap s u) :=
        (set_heap s (out_nodes (node_heap s u)) - {K})
        \<union> ((set_heap s)(out_nodes (node_heap s u) := set_heap s (out_nodes (node_heap s u)) - {K}))
             (out_nodes (node_heap s K)))"
  by (simp add: splice_pred_def remove_out_node_def add_out_node_def Let_def)

lemma splice_succ_sets:
  "set_heap (splice_succ K u s) =
     (set_heap s)(in_nodes (node_heap s u) :=
        (set_heap s (in_nodes (node_heap s u)) - {K})
        \<union> ((set_heap s)(in_nodes (node_heap s u) := set_heap s (in_nodes (node_heap s u)) - {K}))
             (in_nodes (node_heap s K)))"
  by (simp add: splice_succ_def remove_in_node_def add_in_node_def Let_def)

lemma removes_only_refl: "removes_only X s s"
  by (simp add: removes_only_def)

lemma removes_only_trans:
  "removes_only X a b \<Longrightarrow> removes_only Y b c \<Longrightarrow> X \<subseteq> Z \<Longrightarrow> Y \<subseteq> Z \<Longrightarrow> removes_only Z a c"
proof -
  assume ab: "removes_only X a b" and bc: "removes_only Y b c" and XZ: "X \<subseteq> Z" and YZ: "Y \<subseteq> Z"
  have "x \<in> set_heap c r" if "x \<notin> Z" "x \<in> set_heap a r" for r x
  proof -
    have "x \<in> set_heap b r" using ab that XZ by (auto simp: removes_only_def)
    then show ?thesis using bc that YZ by (auto simp: removes_only_def)
  qed
  moreover have "(\<forall>r. finite (set_heap a r)) \<longrightarrow> (\<forall>r. finite (set_heap c r))"
    using ab bc by (simp add: removes_only_def)
  ultimately show ?thesis
    using ab bc by (simp add: removes_only_def)
qed

lemma removes_only_nodes_update: "removes_only X s s' \<Longrightarrow> removes_only X s (s'\<lparr>nodes := ns\<rparr>)"
  by (simp add: removes_only_def)

lemma removes_only_member:
  "removes_only X s s' \<Longrightarrow> x \<notin> X \<Longrightarrow> x \<in> set_heap s r \<Longrightarrow> x \<in> set_heap s' r"
  by (simp add: removes_only_def)

lemma splice_pred_removes: "removes_only {K} s (splice_pred K u s)"
  by (auto simp: removes_only_def splice_pred_heap splice_pred_sets)

lemma splice_succ_removes: "removes_only {K} s (splice_succ K u s)"
  by (auto simp: removes_only_def splice_succ_heap splice_succ_sets)

lemma fold_splice_pred_removes: "removes_only {K} s (fold (splice_pred K) xs s)"
proof (induction xs arbitrary: s)
  case Nil
  show ?case by (simp add: removes_only_refl)
next
  case (Cons x xs)
  show ?case
    using removes_only_trans [OF splice_pred_removes [of K s x] Cons.IH [of "splice_pred K x s"]]
    by simp
qed

lemma fold_splice_succ_removes: "removes_only {K} s (fold (splice_succ K) xs s)"
proof (induction xs arbitrary: s)
  case Nil
  show ?case by (simp add: removes_only_refl)
next
  case (Cons x xs)
  show ?case
    using removes_only_trans [OF splice_succ_removes [of K s x] Cons.IH [of "splice_succ K x s"]]
    by simp
qed

lemma fold_splice_heap:
  "node_heap (fold (splice_pred K) xs s) = node_heap s"
  "node_heap (fold (splice_succ K) xs s) = node_heap s"
  using fold_splice_pred_removes [of K s xs] fold_splice_succ_removes [of K s xs]
  by (simp_all add: removes_only_def)

lemma fold_splice_nodes:
  "nodes (fold (splice_pred K) xs s) = nodes s" "nodes (fold (splice_succ K) xs s) = nodes s"
  by (induction xs arbitrary: s) (simp_all add: splice_pred_heap splice_succ_heap)

lemma fold_splice_pred_bridge:
  "u \<in> set xs \<Longrightarrow> v \<in> out_set s K \<Longrightarrow> v \<noteq> K \<Longrightarrow> v \<in> out_set (fold (splice_pred K) xs s) u"
proof (induction xs arbitrary: s)
  case Nil
  then show ?case by simp
next
  case (Cons x xs)
  let ?s1 = "splice_pred K x s"
  have vK: "v \<in> out_set ?s1 K"
    using removes_only_member [OF splice_pred_removes [of K s x], of v] Cons.prems
    by (simp add: splice_pred_heap)
  show ?case
  proof (cases "u \<in> set xs")
    case True
    from Cons.IH [OF True vK Cons.prems(3)] show ?thesis by simp
  next
    case False
    then have ux: "u = x" using Cons.prems(1) by simp
    have "v \<in> out_set ?s1 u"
      using Cons.prems(2,3) by (auto simp: ux splice_pred_heap splice_pred_sets)
    then have "v \<in> out_set (fold (splice_pred K) xs ?s1) u"
      using removes_only_member [OF fold_splice_pred_removes [of K ?s1 xs], of v] Cons.prems(3)
      by (simp add: fold_splice_heap)
    then show ?thesis by simp
  qed
qed

lemma fold_splice_succ_bridge:
  "v \<in> set ys \<Longrightarrow> u \<in> in_set s K \<Longrightarrow> u \<noteq> K \<Longrightarrow> u \<in> in_set (fold (splice_succ K) ys s) v"
proof (induction ys arbitrary: s)
  case Nil
  then show ?case by simp
next
  case (Cons y ys)
  let ?s1 = "splice_succ K y s"
  have uK: "u \<in> in_set ?s1 K"
    using removes_only_member [OF splice_succ_removes [of K s y], of u] Cons.prems
    by (simp add: splice_succ_heap)
  show ?case
  proof (cases "v \<in> set ys")
    case True
    from Cons.IH [OF True uK Cons.prems(3)] show ?thesis by simp
  next
    case False
    then have vy: "v = y" using Cons.prems(1) by simp
    have "u \<in> in_set ?s1 v"
      using Cons.prems(2,3) by (auto simp: vy splice_succ_heap splice_succ_sets)
    then have "u \<in> in_set (fold (splice_succ K) ys ?s1) v"
      using removes_only_member [OF fold_splice_succ_removes [of K ?s1 ys], of u] Cons.prems(3)
      by (simp add: fold_splice_heap)
    then show ?thesis by simp
  qed
qed

lemma disconnect_obtain:
  assumes "disconnect K s s'"
  obtains xs ys where "set xs = in_set s K" "distinct xs"
    "set ys = out_set (fold (splice_pred K) xs s) K" "distinct ys"
    "s' = fold (splice_succ K) ys (fold (splice_pred K) xs s)"
  using assms by (auto simp: disconnect.simps)

lemma disconnect_removes:
  assumes "disconnect K s s'"
  shows "removes_only {K} s s' \<and> nodes s' = nodes s"
proof -
  from assms obtain xs ys where s': "s' = fold (splice_succ K) ys (fold (splice_pred K) xs s)"
    by (rule disconnect_obtain)
  have "removes_only {K} s (fold (splice_pred K) xs s)" by (rule fold_splice_pred_removes)
  moreover have "removes_only {K} (fold (splice_pred K) xs s) s'"
    unfolding s' by (rule fold_splice_succ_removes)
  ultimately have "removes_only {K} s s'" by (rule removes_only_trans) simp_all
  then show ?thesis by (simp add: s' fold_splice_nodes)
qed

lemma disconnect_bridge:
  assumes d: "disconnect K s s'" and u: "u \<in> in_set s K" and v: "v \<in> out_set s K"
    and uK: "u \<noteq> K" and vK: "v \<noteq> K"
  shows "v \<in> out_set s' u \<and> u \<in> in_set s' v"
proof -
  from d obtain xs ys where xs: "set xs = in_set s K"
    and ys: "set ys = out_set (fold (splice_pred K) xs s) K"
    and s': "s' = fold (splice_succ K) ys (fold (splice_pred K) xs s)"
    by (rule disconnect_obtain)
  define s1 where "s1 = fold (splice_pred K) xs s"
  have r1: "removes_only {K} s s1" unfolding s1_def by (rule fold_splice_pred_removes)
  have r2: "removes_only {K} s1 s'" unfolding s' s1_def by (rule fold_splice_succ_removes)
  have h1: "node_heap s1 = node_heap s" and h2: "node_heap s' = node_heap s1"
    using r1 r2 by (simp_all add: removes_only_def)
  have uxs: "u \<in> set xs" using u xs by simp
  have a: "v \<in> out_set s1 u"
    using fold_splice_pred_bridge [OF uxs v vK] by (simp add: s1_def)
  have a': "v \<in> out_set s' u"
    using removes_only_member [OF r2 _ a] vK by (simp add: h2)
  have vK1: "v \<in> out_set s1 K"
    using removes_only_member [OF r1 _ v] vK by (simp add: h1)
  have uK1: "u \<in> in_set s1 K"
    using removes_only_member [OF r1 _ u] uK by (simp add: h1)
  have vys: "v \<in> set ys" using vK1 ys by (simp add: s1_def)
  have b: "u \<in> in_set s' v"
    using fold_splice_succ_bridge [OF vys uK1 uK] by (simp add: s' s1_def)
  from a' b show ?thesis ..
qed

lemma heap_determinedD:
  "heap_determined c \<Longrightarrow> node_heap s = node_heap s' \<Longrightarrow> c s n = c s' n"
  unfolding heap_determined_def by blast

lemma is_constant_heap_determined: "heap_determined is_constant"
  by (simp add: heap_determined_def is_constant_def)

lemma sweep_filter:
  assumes "sweep c ns s kept changed s'" and "heap_determined c"
  shows "removes_only {n. c s n} s s' \<and> nodes s' = nodes s
     \<and> kept = filter (\<lambda>n. \<not> c s n) ns \<and> (changed \<longleftrightarrow> (\<exists>n \<in> set ns. c s n))"
  using assms
proof (induction rule: sweep.induct)
  case (sweep_Nil c s)
  show ?case by (simp add: removes_only_refl)
next
  case (sweep_remove condition s node s1 rest kept changed s2)
  note hd = sweep_remove.prems
  note d = disconnect_removes [OF sweep_remove.hyps(2)]
  note IH = sweep_remove.IH [OF hd]
  have h: "node_heap s1 = node_heap s" using d by (simp add: removes_only_def)
  have same: "condition s1 n = condition s n" for n
    using heap_determinedD [OF hd h] .
  have X: "{n. condition s1 n} = {n. condition s n}" by (simp add: same)
  have r1: "removes_only {node} s s1" using d by simp
  have r2: "removes_only {n. condition s n} s1 s2" using IH by (simp add: X)
  have "removes_only {n. condition s n} s s2"
    using removes_only_trans [OF r1 r2, of "{n. condition s n}"] sweep_remove.hyps(1) by simp
  moreover have "nodes s2 = nodes s" using IH d by simp
  moreover have "kept = filter (\<lambda>n. \<not> condition s n) (node # rest)"
    using IH sweep_remove.hyps(1) by (simp add: same)
  ultimately show ?case using sweep_remove.hyps(1) by simp
next
  case (sweep_keep condition s node rest kept changed s2)
  then show ?case by simp
qed

lemma sweep_bridge:
  assumes "sweep c ns s kept changed s'" and "heap_determined c"
    and "K \<in> set ns" "c s K" "u \<in> in_set s K" "v \<in> out_set s K" "\<not> c s u" "\<not> c s v"
  shows "v \<in> out_set s' u \<and> u \<in> in_set s' v"
  using assms
proof (induction rule: sweep.induct)
  case (sweep_Nil c s)
  then show ?case by simp
next
  case (sweep_remove condition s node s1 rest kept changed s2)
  note hd = sweep_remove.prems(1)
  note d = disconnect_removes [OF sweep_remove.hyps(2)]
  have r1: "removes_only {node} s s1" using d by simp
  have h: "node_heap s1 = node_heap s" using d by (simp add: removes_only_def)
  have same: "condition s1 n = condition s n" for n
    using heap_determinedD [OF hd h] .
  have un: "u \<noteq> node" and vn: "v \<noteq> node"
    using sweep_remove.hyps(1) sweep_remove.prems by auto
  show ?case
  proof (cases "K = node")
    case True
    have b: "v \<in> out_set s1 u \<and> u \<in> in_set s1 v"
      using disconnect_bridge [OF sweep_remove.hyps(2), of u v] sweep_remove.prems un vn
      by (simp add: True)
    note f = sweep_filter [OF sweep_remove.hyps(3) hd]
    have r2: "removes_only {n. condition s1 n} s1 s2" using f by simp
    have h2: "node_heap s2 = node_heap s1" using r2 by (simp add: removes_only_def)
    have "v \<notin> {n. condition s1 n}" "u \<notin> {n. condition s1 n}"
      using sweep_remove.prems by (simp_all add: same)
    then show ?thesis
      using removes_only_member [OF r2, of v "out_nodes (node_heap s1 u)"]
        removes_only_member [OF r2, of u "in_nodes (node_heap s1 v)"] b
      by (simp add: h2)
  next
    case False
    then have Kr: "K \<in> set rest" using sweep_remove.prems by simp
    have u1: "u \<in> in_set s1 K" and v1: "v \<in> out_set s1 K"
      using removes_only_member [OF r1, of u "in_nodes (node_heap s K)"]
        removes_only_member [OF r1, of v "out_nodes (node_heap s K)"]
        sweep_remove.prems un vn by (simp_all add: h)
    show ?thesis
      using sweep_remove.IH [OF hd Kr] u1 v1 sweep_remove.prems by (simp add: same)
  qed
next
  case (sweep_keep condition s node rest kept changed s2)
  have "K \<noteq> node" using sweep_keep.hyps(1) sweep_keep.prems(3) by blast
  then have Kr: "K \<in> set rest" using sweep_keep.prems(2) by simp
  show ?case
    by (rule sweep_keep.IH [OF sweep_keep.prems(1) Kr sweep_keep.prems(3-7)])
qed

lemma remove_nodes_filter:
  assumes "remove_nodes c rv s s'" and "heap_determined c" and "\<not> rv"
  shows "removes_only {n. c s n} s s' \<and> nodes s' = filter (\<lambda>n. \<not> c s n) (nodes s)"
  using assms
proof (induction rule: remove_nodes.induct)
  case (remove_nodes_done condition reverse s kept s1)
  have sw: "sweep condition (nodes s) s kept False s1"
    using remove_nodes_done.hyps remove_nodes_done.prems(2) by simp
  note f = sweep_filter [OF sw remove_nodes_done.prems(1)]
  show ?case
    using f removes_only_nodes_update [of "{n. condition s n}" s s1 kept] by simp
next
  case (remove_nodes_again condition reverse s kept s1 s2)
  have sw: "sweep condition (nodes s) s kept True s1"
    using remove_nodes_again.hyps(1) remove_nodes_again.prems(2) by simp
  note hd = remove_nodes_again.prems(1)
  note f = sweep_filter [OF sw hd]
  let ?t = "s1\<lparr>nodes := kept\<rparr>"
  have h: "node_heap ?t = node_heap s" using f by (simp add: removes_only_def)
  have same: "condition ?t n = condition s n" for n
    using heap_determinedD [OF hd h] .
  note IH = remove_nodes_again.IH [OF hd remove_nodes_again.prems(2)]
  have r1: "removes_only {n. condition s n} s ?t"
    using f removes_only_nodes_update by blast
  have r2: "removes_only {n. condition s n} ?t s2"
    using IH by (simp add: same)
  have "removes_only {n. condition s n} s s2"
    using removes_only_trans [OF r1 r2] by simp
  moreover have "nodes s2 = filter (\<lambda>n. \<not> condition s n) (nodes s)"
  proof -
    have "nodes s2 = filter (\<lambda>n. \<not> condition ?t n) (nodes ?t)" using IH by simp
    also have "\<dots> = filter (\<lambda>n. \<not> condition s n) kept" by (simp only: same) simp
    also have "kept = filter (\<lambda>n. \<not> condition s n) (nodes s)" using f by simp
    finally show ?thesis by simp
  qed
  ultimately show ?case by simp
qed

lemma remove_nodes_bridge:
  assumes rn: "remove_nodes c False s s'" and hd: "heap_determined c"
    and K: "K \<in> set (nodes s)" "c s K" and uv: "u \<in> in_set s K" "v \<in> out_set s K"
    and nc: "\<not> c s u" "\<not> c s v"
  shows "v \<in> out_set s' u \<and> u \<in> in_set s' v"
  using rn
proof (cases rule: remove_nodes.cases)
  case (remove_nodes_done kept s1)
  then have sw: "sweep c (nodes s) s kept False s1" by simp
  from sweep_bridge [OF sw hd K uv nc] show ?thesis
    by (simp add: remove_nodes_done(1))
next
  case (remove_nodes_again kept s1)
  then have sw: "sweep c (nodes s) s kept True s1" by simp
  let ?t = "s1\<lparr>nodes := kept\<rparr>"
  note b = sweep_bridge [OF sw hd K uv nc]
  note f = sweep_filter [OF sw hd]
  have h: "node_heap ?t = node_heap s" using f by (simp add: removes_only_def)
  have same: "c ?t n = c s n" for n
    using heap_determinedD [OF hd h] .
  note g = remove_nodes_filter [OF remove_nodes_again(2) hd]
  have r: "removes_only {n. c s n} ?t s'" using g by (simp add: same)
  have h': "node_heap s' = node_heap s1" using r by (simp add: removes_only_def)
  show ?thesis
    using removes_only_member [OF r, of v "out_nodes (node_heap s1 u)"]
      removes_only_member [OF r, of u "in_nodes (node_heap s1 v)"] b nc
    by (simp add: h')
qed

lemma disconnect_exists:
  assumes fin: "\<forall>r. finite (set_heap s r)"
  shows "\<exists>s'. disconnect K s s'"
proof -
  obtain xs where xs: "set xs = in_set s K" "distinct xs"
    using fin finite_distinct_list by blast
  let ?s1 = "fold (splice_pred K) xs s"
  have "\<forall>r. finite (set_heap ?s1 r)"
    using fold_splice_pred_removes [of K s xs] fin by (simp add: removes_only_def)
  then obtain ys where ys: "set ys = out_set ?s1 K" "distinct ys"
    using finite_distinct_list by blast
  have "disconnect K s (fold (splice_succ K) ys ?s1)"
    by (rule disconnectI [OF xs refl ys refl])
  then show ?thesis ..
qed

lemma sweep_exists:
  "\<forall>r. finite (set_heap s r) \<Longrightarrow> \<exists>kept changed s'. sweep c ns s kept changed s'"
proof (induction ns arbitrary: s)
  case Nil
  show ?case using sweep_Nil by blast
next
  case (Cons n ns)
  show ?case
  proof (cases "c s n")
    case True
    obtain s1 where d: "disconnect n s s1" using disconnect_exists [OF Cons.prems] ..
    have "\<forall>r. finite (set_heap s1 r)"
      using disconnect_removes [OF d] Cons.prems by (simp add: removes_only_def)
    from Cons.IH [OF this] obtain kept changed s' where "sweep c ns s1 kept changed s'" by blast
    from sweep_remove [OF True d this] show ?thesis by blast
  next
    case False
    from Cons.IH [OF Cons.prems] obtain kept changed s' where "sweep c ns s kept changed s'" by blast
    from sweep_keep [OF False this] show ?thesis by blast
  qed
qed

lemma sweep_shrinks:
  assumes "sweep c ns s kept changed s'"
  shows "length kept \<le> length ns \<and> (changed \<longrightarrow> length kept < length ns)
     \<and> ((\<forall>r. finite (set_heap s r)) \<longrightarrow> (\<forall>r. finite (set_heap s' r)))"
  using assms
proof (induction rule: sweep.induct)
  case (sweep_Nil condition s)
  show ?case by simp
next
  case (sweep_remove condition s node s1 rest kept changed s2)
  have "(\<forall>r. finite (set_heap s r)) \<longrightarrow> (\<forall>r. finite (set_heap s1 r))"
    using disconnect_removes [OF sweep_remove.hyps(2)] by (simp add: removes_only_def)
  then show ?case using sweep_remove.IH by auto
next
  case (sweep_keep condition s node rest kept changed s2)
  then show ?case by auto
qed

lemma remove_nodes_exists:
  "\<forall>r. finite (set_heap s r) \<Longrightarrow> \<exists>s'. remove_nodes c rv s s'"
proof (induction "length (nodes s)" arbitrary: s rule: less_induct)
  case less
  let ?ns = "if rv then rev (nodes s) else nodes s"
  obtain kept changed s1 where sw: "sweep c ?ns s kept changed s1"
    using sweep_exists [OF less.prems] by blast
  note sh = sweep_shrinks [OF sw]
  show ?case
  proof (cases changed)
    case False
    with sw have "sweep c ?ns s kept False s1" by simp
    from remove_nodes_done [OF this] show ?thesis ..
  next
    case True
    with sw have sw': "sweep c ?ns s kept True s1" by simp
    let ?t = "s1\<lparr>nodes := kept\<rparr>"
    have "length (nodes ?t) < length (nodes s)" using sh True by (simp split: if_splits)
    moreover have "\<forall>r. finite (set_heap ?t r)" using sh less.prems by simp
    ultimately obtain s2 where "remove_nodes c rv ?t s2" using less.hyps by blast
    from remove_nodes_again [OF sw' this] show ?thesis ..
  qed
qed

lemmas splice_defs = splice_pred_def splice_succ_def remove_out_node_def add_out_node_def
  remove_in_node_def add_in_node_def

lemmas ex_defs = ex_relu_def ex_chunk_def ex_start_def ex_inputs_def run_defs
  raw_op_scope_def str_nat.simps digit_char_def is_constant_def

lemma ex_chain_nodes: "nodes ex_chain = [0, 1, 2, 3]"
  by (simp add: ex_chain_def ex_defs)

lemma ex_chain_const:
  "\<not> is_constant ex_chain 0" "is_constant ex_chain (Suc 0)" "is_constant ex_chain 2"
  "\<not> is_constant ex_chain 3"
  by (simp_all add: ex_chain_def ex_defs)

lemma ex_chain_removal:
  "\<exists>s'. remove_constant_nodes ex_chain s' \<and> nodes s' = [0, 3] \<and> 2 \<notin> out_set s' 0 \<and> 3 \<in> out_set s' 0"
proof -
  define s1 where "s1 = fold (splice_succ 1) [2] (fold (splice_pred 1) [0] ex_chain)"
  define s2 where "s2 = fold (splice_succ 2) [3] (fold (splice_pred 2) [0] s1)"
  have d1: "disconnect 1 ex_chain s1"
    unfolding s1_def
    by (rule disconnectI [where xs = "[0]" and ys = "[2]", OF _ _ refl _ _ refl])
       (simp_all add: ex_chain_def ex_defs splice_defs)
  have d2: "disconnect 2 s1 s2"
    unfolding s2_def
    by (rule disconnectI [where xs = "[0]" and ys = "[3]", OF _ _ refl _ _ refl])
       (simp_all add: s1_def ex_chain_def ex_defs splice_defs)
  have h1: "node_heap s1 = node_heap ex_chain" and h2: "node_heap s2 = node_heap ex_chain"
    by (simp_all add: s1_def s2_def splice_defs Let_def)
  have c1: "is_constant s1 n = is_constant ex_chain n" and c2: "is_constant s2 n = is_constant ex_chain n" for n
    by (simp_all add: is_constant_def h1 h2)
  have sw3: "sweep is_constant [3] s2 [3] False s2"
    by (intro sweep_keep sweep_Nil) (simp add: c2 ex_chain_const)
  have sw2: "sweep is_constant [2, 3] s1 [3] True s2"
    by (rule sweep_remove [OF _ d2 sw3]) (simp add: c1 ex_chain_const)
  have sw1: "sweep is_constant [1, 2, 3] ex_chain [3] True s2"
    by (rule sweep_remove [OF _ d1 sw2]) (simp add: ex_chain_const)
  have sw0: "sweep is_constant (if False then rev (nodes ex_chain) else nodes ex_chain) ex_chain [0, 3] True s2"
    using sweep_keep [OF _ sw1, of 0] by (simp add: ex_chain_nodes ex_chain_const)
  let ?t = "s2\<lparr>nodes := [0, 3]\<rparr>"
  have ct: "is_constant ?t n = is_constant ex_chain n" for n
    by (simp add: is_constant_def h2)
  have swt: "sweep is_constant (if False then rev (nodes ?t) else nodes ?t) ?t [0, 3] False ?t"
    using sweep_keep [OF _ sweep_keep [OF _ sweep_Nil], of is_constant ?t 0 3]
    by (simp add: ct ex_chain_const)
  have "remove_nodes is_constant False ex_chain (?t\<lparr>nodes := [0, 3]\<rparr>)"
    by (rule remove_nodes_again [OF sw0 remove_nodes_done [OF swt]])
  then have "remove_constant_nodes ex_chain ?t"
    by (simp add: remove_constant_nodes_def)
  moreover have "2 \<notin> out_set ?t 0 \<and> 3 \<in> out_set ?t 0"
    by (simp add: s2_def s1_def ex_chain_def ex_defs splice_defs)
  ultimately show ?thesis by (intro exI [of _ ?t]) simp
qed


lemma ex_bridge_facts:
  "nodes ex_bridge = [0, 1, 2, 3]" "\<forall>r. finite (set_heap ex_bridge r)"
  "is_constant ex_bridge 2" "\<not> is_constant ex_bridge (Suc 0)" "\<not> is_constant ex_bridge 3"
  "\<not> is_constant ex_bridge 0"
  "Suc 0 \<in> in_set ex_bridge 2" "3 \<in> out_set ex_bridge 2"
  by (simp_all add: ex_bridge_def ex_defs)

text \<open>
  C5, amended. On a store whose sets are finite, \<open>_remove_constant_nodes\<close> returns; and
  whenever it returns, the nodes of the graph are those of before whose scope does not
  contain \<open>::Constant\<close>, in the same order, so no constant node remains; and for every
  removed constant node \<open>K\<close>, every node \<open>u\<close> that was in its in-edge set and every node
  \<open>v\<close> that was in its out-edge set, neither of them a constant node itself, are joined
  directly: \<open>v\<close> is in the out-edge set of \<open>u\<close> and \<open>u\<close> in the in-edge set of \<open>v\<close>.
\<close>

theorem constant_removal_bridges:
  assumes fin: "\<forall>r. finite (set_heap s r)"
  shows "(\<exists>s'. remove_constant_nodes s s')
     \<and> (\<forall>s'. remove_constant_nodes s s' \<longrightarrow>
           nodes s' = filter (\<lambda>n. \<not> is_constant s n) (nodes s)
         \<and> (\<forall>n \<in> set (nodes s'). \<not> is_constant s' n)
         \<and> (\<forall>K u v. K \<in> set (nodes s) \<and> is_constant s K
                \<and> u \<in> in_set s K \<and> v \<in> out_set s K
                \<and> \<not> is_constant s u \<and> \<not> is_constant s v
              \<longrightarrow> v \<in> out_set s' u \<and> u \<in> in_set s' v))"
proof (intro conjI allI impI)
  show "\<exists>s'. remove_constant_nodes s s'"
    unfolding remove_constant_nodes_def by (rule remove_nodes_exists [OF fin])
next
  fix s' assume r: "remove_constant_nodes s s'"
  then have rn: "remove_nodes is_constant False s s'" by (simp add: remove_constant_nodes_def)
  note f = remove_nodes_filter [OF rn is_constant_heap_determined]
  show "nodes s' = filter (\<lambda>n. \<not> is_constant s n) (nodes s)" using f by simp
  have "node_heap s' = node_heap s" using f by (simp add: removes_only_def)
  then have "is_constant s' n = is_constant s n" for n by (simp add: is_constant_def)
  then show "\<forall>n \<in> set (nodes s'). \<not> is_constant s' n" using f by simp
next
  fix s' K u v
  assume r: "remove_constant_nodes s s'"
    and a: "K \<in> set (nodes s) \<and> is_constant s K \<and> u \<in> in_set s K \<and> v \<in> out_set s K
                \<and> \<not> is_constant s u \<and> \<not> is_constant s v"
  from r have rn: "remove_nodes is_constant False s s'" by (simp add: remove_constant_nodes_def)
  from a remove_nodes_bridge [OF rn is_constant_heap_determined, of K u v]
  show "v \<in> out_set s' u" "u \<in> in_set s' v" by simp_all
qed

theorem constant_removal_bridges_witness:
  "(\<forall>r. finite (set_heap ex_bridge r))
   \<and> (\<exists>s'. remove_constant_nodes ex_bridge s' \<and> nodes s' = [0, 1, 3]
         \<and> \<not> is_constant s' 0 \<and> \<not> is_constant s' 1 \<and> \<not> is_constant s' 3
         \<and> 3 \<in> out_set s' 1 \<and> 1 \<in> in_set s' 3)"
proof -
  have fin: "\<forall>r. finite (set_heap ex_bridge r)" by (rule ex_bridge_facts)
  note T = constant_removal_bridges [OF fin]
  from T obtain s' where r: "remove_constant_nodes ex_bridge s'" by blast
  from T r have n: "nodes s' = filter (\<lambda>n. \<not> is_constant ex_bridge n) (nodes ex_bridge)"
    and c: "\<forall>n \<in> set (nodes s'). \<not> is_constant s' n"
    and b: "2 \<in> set (nodes ex_bridge) \<and> is_constant ex_bridge 2
                \<and> 1 \<in> in_set ex_bridge 2 \<and> 3 \<in> out_set ex_bridge 2
                \<and> \<not> is_constant ex_bridge 1 \<and> \<not> is_constant ex_bridge 3
              \<longrightarrow> 3 \<in> out_set s' 1 \<and> 1 \<in> in_set s' 3"
    by blast+
  have n': "nodes s' = [0, 1, 3]" using n by (simp add: ex_bridge_facts)
  have c': "\<not> is_constant s' 0 \<and> \<not> is_constant s' 1 \<and> \<not> is_constant s' 3"
    using c by (simp add: n')
  have b': "3 \<in> out_set s' 1 \<and> 1 \<in> in_set s' 3"
    using b by (simp add: ex_bridge_facts)
  from fin r n' c' b' show ?thesis by blast
qed

text \<open>
  C5, as the specification states it, fails where a neighbour of a removed constant node
  is a constant node too. In the trace \<open>input, chunk, chunk, relu\<close> the first chunk (node
  \<open>1\<close>) has the input (node \<open>0\<close>) as in-neighbour and the second chunk (node \<open>2\<close>) as
  out-neighbour; after the pass the input has an edge to the last op (node \<open>3\<close>), and
  none to node \<open>2\<close>, which was removed as well.
\<close>

theorem constant_removal_drops_bridge_to_constant:
  "1 \<in> set (nodes ex_chain) \<and> is_constant ex_chain 1
   \<and> 0 \<in> in_set ex_chain 1 \<and> 2 \<in> out_set ex_chain 1
   \<and> (\<exists>s'. remove_constant_nodes ex_chain s' \<and> nodes s' = [0, 3]
          \<and> 2 \<notin> out_set s' 0 \<and> 3 \<in> out_set s' 0)"
proof -
  have "1 \<in> set (nodes ex_chain) \<and> is_constant ex_chain 1
   \<and> 0 \<in> in_set ex_chain 1 \<and> 2 \<in> out_set ex_chain 1"
    by (simp add: ex_chain_def ex_defs)
  then show ?thesis using ex_chain_removal by simp
qed

section \<open>Exceptions during construction\<close>

lemma add_IO_nodes_from_append:
  "add_IO_nodes_from i (xs @ ys) s =
     (case add_IO_nodes_from i xs s of Inl e \<Rightarrow> Inl e
      | Inr s1 \<Rightarrow> add_IO_nodes_from (i + length xs) ys s1)"
  by (induction xs arbitrary: i s) (auto split: sum.splits)

lemma add_OP_nodes_from_append:
  "add_OP_nodes_from i (xs @ ys) st =
     (case add_OP_nodes_from i xs st of Inl e \<Rightarrow> Inl e
      | Inr st1 \<Rightarrow> add_OP_nodes_from (i + length xs) ys st1)"
  by (induction xs arbitrary: i st) (auto split: sum.splits)

lemma add_IO_node_shapeless:
  "sizes x = SizesNone \<Longrightarrow> add_IO_node i x s = Inl TypeError"
  "sizes x = SizesRaises e \<Longrightarrow> add_IO_node i x s = Inl e"
  by (simp_all add: add_IO_node_def)

lemma lookup_nodes_dangling':
  "k \<in> set is \<Longrightarrow> length ns \<le> k \<Longrightarrow> lookup_nodes ns is = Inl IndexError"
  by (induction "is") (auto split: sum.splits)

lemma lookup_nodes_dangling:
  "\<exists>k \<in> set is. length ns \<le> k \<Longrightarrow> lookup_nodes ns is = Inl IndexError"
  using lookup_nodes_dangling' by blast

lemma add_OP_node_dangling:
  "\<exists>k \<in> set (inputs tn). length (nodes s) \<le> k \<Longrightarrow> add_OP_node i tn (ne, s) = Inl IndexError"
  by (simp add: add_OP_node_def add_primary_node_def lookup_nodes_dangling)

lemma build_graph_IO_error:
  assumes "add_IO_nodes (graph_inputs t) s = Inl e"
  shows "build_graph t s r \<longleftrightarrow> r = Inl e"
  using assms by (auto simp: build_graph.simps)

lemma build_graph_OP_error:
  assumes "add_IO_nodes (graph_inputs t) s = Inr s1" "add_OP_nodes (graph_nodes t) s1 = Inl e"
  shows "build_graph t s r \<longleftrightarrow> r = Inl e"
  using assms by (auto simp: build_graph.simps)

lemma Graph_init_error:
  assumes "\<forall>r. build_graph t (new_graph layers n names) r \<longleftrightarrow> r = Inl e"
  shows "\<forall>r. Graph_init layers n names t weights r \<longleftrightarrow> r = Inl e"
  using assms by (auto simp: Graph_init.simps)


lemma add_IO_node_finite:
  "\<forall>r. finite (set_heap s r) \<Longrightarrow> add_IO_node i x s = Inr s' \<Longrightarrow> \<forall>r. finite (set_heap s' r)"
  by (auto simp: add_IO_node_def Node_init_def new_set_def Let_def
      split: sizes_result.splits if_splits)

lemma add_IO_nodes_from_finite:
  "\<forall>r. finite (set_heap s r) \<Longrightarrow> add_IO_nodes_from i xs s = Inr s' \<Longrightarrow> \<forall>r. finite (set_heap s' r)"
proof (induction xs arbitrary: i s)
  case Nil
  then show ?case by simp
next
  case (Cons x xs)
  from Cons.prems(2) obtain s1 where a: "add_IO_node i x s = Inr s1"
    and b: "add_IO_nodes_from (Suc i) xs s1 = Inr s'"
    by (auto split: sum.splits)
  from Cons.IH [OF add_IO_node_finite [OF Cons.prems(1) a] b] show ?case .
qed

lemma add_primary_node_finite:
  assumes fin: "\<forall>r. finite (set_heap s r)" and run: "add_primary_node i tn (ne, s) = Inr (node_idx, P, s4)"
  shows "\<forall>r. finite (set_heap s4 r)"
proof -
  have f: "\<forall>r. finite (set_heap (fold (\<lambda>node. add_out_node node (NodeArg v)) xs t) r)"
    if "\<forall>r. finite (set_heap t r)" for v xs t
    using fold_add_out_node [of v xs t] that by simp
  show ?thesis
    using run fin
    by (auto simp: add_primary_node_def Let_def new_set_def Node_init_def
        split: sum.splits if_splits intro!: f [rule_format])
qed

lemma add_output_node_finite:
  "\<forall>r. finite (set_heap s r) \<Longrightarrow> add_output_node node_idx P i (ne, s) = Inr (ne', s')
     \<Longrightarrow> \<forall>r. finite (set_heap s' r)"
  by (auto simp: add_output_node_def new_set_def Let_def add_in_node_def add_out_node_def
      split: if_splits)

lemma add_output_nodes_finite:
  "\<forall>r. finite (set_heap s r) \<Longrightarrow> add_output_nodes node_idx P is (ne, s) = Inr (ne', s')
     \<Longrightarrow> \<forall>r. finite (set_heap s' r)"
proof (induction "is" arbitrary: ne s)
  case Nil
  then show ?case by simp
next
  case (Cons i "is")
  from Cons.prems(2) obtain ne1 s1 where a: "add_output_node node_idx P i (ne, s) = Inr (ne1, s1)"
    and b: "add_output_nodes node_idx P is (ne1, s1) = Inr (ne', s')"
    by (auto split: sum.splits)
  from Cons.IH [OF add_output_node_finite [OF Cons.prems(1) a] b] show ?case .
qed

lemma add_OP_node_finite:
  assumes "\<forall>r. finite (set_heap s r)" "add_OP_node i tn (ne, s) = Inr (ne', s')"
  shows "\<forall>r. finite (set_heap s' r)"
proof -
  from assms(2) obtain node_idx P s4 where a: "add_primary_node i tn (ne, s) = Inr (node_idx, P, s4)"
    and b: "add_output_nodes node_idx P [0 ..< length (outputs tn)] (ne, s4) = Inr (ne', s')"
    by (auto simp: add_OP_node_def split: sum.splits)
  from add_output_nodes_finite [OF add_primary_node_finite [OF assms(1) a] b] show ?thesis .
qed

lemma add_OP_nodes_from_finite:
  "\<forall>r. finite (set_heap s r) \<Longrightarrow> add_OP_nodes_from i ops (ne, s) = Inr (ne', s')
     \<Longrightarrow> \<forall>r. finite (set_heap s' r)"
proof (induction ops arbitrary: i ne s)
  case Nil
  then show ?case by simp
next
  case (Cons tn ops)
  from Cons.prems(2) obtain ne1 s1 where a: "add_OP_node i tn (ne, s) = Inr (ne1, s1)"
    and b: "add_OP_nodes_from (Suc i) ops (ne1, s1) = Inr (ne', s')"
    by (auto split: sum.splits)
  from Cons.IH [OF add_OP_node_finite [OF Cons.prems(1) a] b] show ?case .
qed

lemma built_nodes_finite:
  assumes "\<forall>r. finite (set_heap s r)" "add_IO_nodes input_nodes s = Inr s1"
    "add_OP_nodes OP_nodes s1 = Inr s2"
  shows "\<forall>r. finite (set_heap s2 r)"
proof -
  have f1: "\<forall>r. finite (set_heap s1 r)"
    using add_IO_nodes_from_finite [OF assms(1)] assms(2) by (simp add: add_IO_nodes_def)
  from assms(3) obtain ne where "add_OP_nodes_from 0 OP_nodes (0, s1) = Inr (ne, s2)"
    by (auto simp: add_OP_nodes_def split: sum.splits)
  from add_OP_nodes_from_finite [OF f1 this] show ?thesis .
qed

lemma remove_nodes_finite:
  assumes "remove_nodes c rv s s'" "\<forall>r. finite (set_heap s r)"
  shows "\<forall>r. finite (set_heap s' r)"
  using assms
proof (induction rule: remove_nodes.induct)
  case (remove_nodes_done condition reverse s kept s1)
  then show ?case using sweep_shrinks [OF remove_nodes_done.hyps] by simp
next
  case (remove_nodes_again condition reverse s kept s1 s2)
  have "\<forall>r. finite (set_heap (s1\<lparr>nodes := kept\<rparr>) r)"
    using sweep_shrinks [OF remove_nodes_again.hyps(1)] remove_nodes_again.prems by simp
  then show ?case by (rule remove_nodes_again.IH)
qed

lemma build_graph_outputs_error:
  assumes fin: "\<forall>r. finite (set_heap s r)"
    and io: "add_IO_nodes (graph_inputs t) s = Inr s1"
    and op: "add_OP_nodes (graph_nodes t) s1 = Inr s2"
    and out: "out_indices_of (graph_outputs t) = Inl e"
  shows "build_graph t s r \<longleftrightarrow> r = Inl e"
proof
  assume "build_graph t s r"
  then show "r = Inl e"
    using io op out by (auto simp: build_graph.simps remove_nodes_that_go_nowhere.simps)
next
  assume r: "r = Inl e"
  obtain s3 where c: "remove_constant_nodes s2 s3"
    using remove_nodes_exists [OF built_nodes_finite [OF fin io op]]
    by (auto simp: remove_constant_nodes_def)
  have "remove_nodes_that_go_nowhere (graph_outputs t) s3 (Inl e)"
    by (rule go_nowhere_raises [OF out])
  from build_outputs_raise [OF io op c this] show "build_graph t s r" by (simp add: r)
qed

lemma build_graph_total:
  assumes fin: "\<forall>r. finite (set_heap s r)"
  shows "\<exists>r. build_graph t s r"
proof (cases "add_IO_nodes (graph_inputs t) s")
  case (Inl e)
  then show ?thesis using build_IO_raises by blast
next
  case io: (Inr s1)
  show ?thesis
  proof (cases "add_OP_nodes (graph_nodes t) s1")
    case (Inl e)
    then show ?thesis using build_OP_raises [OF io] by blast
  next
    case op: (Inr s2)
    have f2: "\<forall>r. finite (set_heap s2 r)" by (rule built_nodes_finite [OF fin io op])
    obtain s3 where c: "remove_constant_nodes s2 s3"
      using remove_nodes_exists [OF f2] by (auto simp: remove_constant_nodes_def)
    have f3: "\<forall>r. finite (set_heap s3 r)"
      using remove_nodes_finite [OF _ f2] c by (simp add: remove_constant_nodes_def)
    show ?thesis
    proof (cases "out_indices_of (graph_outputs t)")
      case (Inl e)
      from build_outputs_raise [OF io op c go_nowhere_raises [OF Inl]] show ?thesis ..
    next
      case (Inr out_indices)
      obtain s4 where "remove_nodes (going_nowhere out_indices) False s3 s4"
        using remove_nodes_exists [OF f3] by blast
      from build_done [OF io op c go_nowhere_removes [OF Inr this]] show ?thesis ..
    qed
  qed
qed

text \<open>
  The constructor always ends, with an exception or with a graph: the two \<open>while\<close> loops
  of the removal passes terminate, whatever the trace.
\<close>

theorem Graph_init_total: "\<exists>r. Graph_init layers n names t weights r"
proof -
  have "\<forall>r. finite (set_heap (new_graph layers n names) r)" by (simp add: new_graph_def)
  from build_graph_total [OF this] obtain r where b: "build_graph t (new_graph layers n names) r" ..
  show ?thesis
  proof (cases r)
    case (Inl e)
    with b Graph_init_raises show ?thesis by blast
  next
    case (Inr s)
    with b Graph_init_returns show ?thesis by blast
  qed
qed

lemma ex_start_built: "add_IO_nodes ex_inputs (new_graph [] 1 []) = Inr ex_start"
  by (simp add: ex_start_def ex_inputs_def run_defs)

text \<open>
  C3, amended. A trace input without declared shape makes \<open>_add_IO_nodes\<close> raise, once
  the inputs before it are added: \<open>TypeError\<close> when the runtime's accessor returns
  \<open>None\<close>, else what the accessor raises. A trace op that reads an index at or past the
  number of nodes made so far makes \<open>_add_OP_nodes\<close> raise \<open>IndexError\<close>, once the ops
  before it are added. And whatever \<open>_add_IO_nodes\<close>, \<open>_add_OP_nodes\<close> or the reading of
  the declared outputs raises is the one and only outcome of the constructor.
\<close>

theorem construction_errors_propagate:
  "(add_IO_nodes_from i pre s = Inr s1 \<and> sizes x = SizesNone
      \<longrightarrow> add_IO_nodes_from i (pre @ x # post) s = Inl TypeError)
   \<and> (add_IO_nodes_from i pre s = Inr s1 \<and> sizes x = SizesRaises e
      \<longrightarrow> add_IO_nodes_from i (pre @ x # post) s = Inl e)
   \<and> (add_OP_nodes_from j ops st = Inr (ne, s2) \<and> (\<exists>k \<in> set (inputs tn). length (nodes s2) \<le> k)
      \<longrightarrow> add_OP_nodes_from j (ops @ tn # rest) st = Inl IndexError)
   \<and> (add_IO_nodes (graph_inputs t) (new_graph layers n names) = Inl e'
      \<longrightarrow> (\<forall>r. Graph_init layers n names t weights r \<longleftrightarrow> r = Inl e'))
   \<and> (add_IO_nodes (graph_inputs t) (new_graph layers n names) = Inr s3
        \<and> add_OP_nodes (graph_nodes t) s3 = Inl e'
      \<longrightarrow> (\<forall>r. Graph_init layers n names t weights r \<longleftrightarrow> r = Inl e'))
   \<and> (add_IO_nodes (graph_inputs t) (new_graph layers n names) = Inr s3
        \<and> add_OP_nodes (graph_nodes t) s3 = Inr s4
        \<and> out_indices_of (graph_outputs t) = Inl e'
      \<longrightarrow> (\<forall>r. Graph_init layers n names t weights r \<longleftrightarrow> r = Inl e'))"
proof -
  have c1: "add_IO_nodes_from i pre s = Inr s1 \<and> sizes x = SizesNone
      \<longrightarrow> add_IO_nodes_from i (pre @ x # post) s = Inl TypeError"
    by (simp add: add_IO_nodes_from_append add_IO_node_shapeless)
  have c2: "add_IO_nodes_from i pre s = Inr s1 \<and> sizes x = SizesRaises e
      \<longrightarrow> add_IO_nodes_from i (pre @ x # post) s = Inl e"
    by (simp add: add_IO_nodes_from_append add_IO_node_shapeless)
  have c3: "add_OP_nodes_from j ops st = Inr (ne, s2) \<and> (\<exists>k \<in> set (inputs tn). length (nodes s2) \<le> k)
      \<longrightarrow> add_OP_nodes_from j (ops @ tn # rest) st = Inl IndexError"
    by (simp add: add_OP_nodes_from_append add_OP_node_dangling)
  have fin: "\<forall>r. finite (set_heap (new_graph layers n names) r)" by (simp add: new_graph_def)
  have c4: "add_IO_nodes (graph_inputs t) (new_graph layers n names) = Inl e'
      \<longrightarrow> (\<forall>r. Graph_init layers n names t weights r \<longleftrightarrow> r = Inl e')"
  proof
    assume a: "add_IO_nodes (graph_inputs t) (new_graph layers n names) = Inl e'"
    have "\<forall>r. build_graph t (new_graph layers n names) r \<longleftrightarrow> r = Inl e'"
      using build_graph_IO_error [OF a] by blast
    then show "\<forall>r. Graph_init layers n names t weights r \<longleftrightarrow> r = Inl e'"
      by (rule Graph_init_error)
  qed
  have c5: "add_IO_nodes (graph_inputs t) (new_graph layers n names) = Inr s3
        \<and> add_OP_nodes (graph_nodes t) s3 = Inl e'
      \<longrightarrow> (\<forall>r. Graph_init layers n names t weights r \<longleftrightarrow> r = Inl e')"
  proof
    assume a: "add_IO_nodes (graph_inputs t) (new_graph layers n names) = Inr s3
        \<and> add_OP_nodes (graph_nodes t) s3 = Inl e'"
    have "\<forall>r. build_graph t (new_graph layers n names) r \<longleftrightarrow> r = Inl e'"
      using build_graph_OP_error [of t _ s3 e'] a by blast
    then show "\<forall>r. Graph_init layers n names t weights r \<longleftrightarrow> r = Inl e'"
      by (rule Graph_init_error)
  qed
  have c6: "add_IO_nodes (graph_inputs t) (new_graph layers n names) = Inr s3
        \<and> add_OP_nodes (graph_nodes t) s3 = Inr s4
        \<and> out_indices_of (graph_outputs t) = Inl e'
      \<longrightarrow> (\<forall>r. Graph_init layers n names t weights r \<longleftrightarrow> r = Inl e')"
  proof
    assume a: "add_IO_nodes (graph_inputs t) (new_graph layers n names) = Inr s3
        \<and> add_OP_nodes (graph_nodes t) s3 = Inr s4
        \<and> out_indices_of (graph_outputs t) = Inl e'"
    have "\<forall>r. build_graph t (new_graph layers n names) r \<longleftrightarrow> r = Inl e'"
      using build_graph_outputs_error [OF fin, of t s3 s4 e'] a by blast
    then show "\<forall>r. Graph_init layers n names t weights r \<longleftrightarrow> r = Inl e'"
      by (rule Graph_init_error)
  qed
  from c1 c2 c3 c4 c5 c6 show ?thesis by (intro conjI)
qed

theorem construction_errors_propagate_witness:
  "add_IO_nodes_from 0 [] (new_graph [] 1 []) = Inr (new_graph [] 1 [])
   \<and> sizes (TraceInput SizesNone) = SizesNone
   \<and> add_IO_nodes_from 0 ([] @ TraceInput SizesNone # ex_inputs) (new_graph [] 1 []) = Inl TypeError
   \<and> add_OP_nodes_from 0 [] (0, ex_start) = Inr (0, ex_start)
   \<and> 5 \<in> set (inputs (ex_relu\<lparr>inputs := [5]\<rparr>)) \<and> length (nodes ex_start) \<le> 5
   \<and> add_OP_nodes_from 0 ([] @ ex_relu\<lparr>inputs := [5]\<rparr> # []) (0, ex_start) = Inl IndexError
   \<and> add_IO_nodes (graph_inputs ex_shapeless) (new_graph [] 1 []) = Inl TypeError
   \<and> Graph_init [] 1 [] ex_shapeless Map.empty (Inl TypeError)
   \<and> add_IO_nodes (graph_inputs ex_dangling) (new_graph [] 1 []) = Inr ex_start
   \<and> add_OP_nodes (graph_nodes ex_dangling) ex_start = Inl IndexError
   \<and> Graph_init [] 1 [] ex_dangling Map.empty (Inl IndexError)"
proof -
  have a1: "add_IO_nodes_from 0 [] (new_graph [] 1 []) = Inr (new_graph [] 1 [])" by simp
  have a2: "sizes (TraceInput SizesNone) = SizesNone" by simp
  have b1: "add_OP_nodes_from 0 [] (0, ex_start) = Inr (0, ex_start)" by simp
  have b2: "5 \<in> set (inputs (ex_relu\<lparr>inputs := [5]\<rparr>))" by simp
  have b3: "length (nodes ex_start) \<le> 5" by (simp add: ex_start_fields)
  have d1: "add_IO_nodes (graph_inputs ex_shapeless) (new_graph [] 1 []) = Inl TypeError"
    by (simp add: ex_shapeless_def add_IO_nodes_def add_IO_node_def)
  have e1: "add_IO_nodes (graph_inputs ex_dangling) (new_graph [] 1 []) = Inr ex_start"
    using ex_start_built by (simp add: ex_dangling_def)
  have e2: "add_OP_nodes (graph_nodes ex_dangling) ex_start = Inl IndexError"
    by (simp add: ex_dangling_def add_OP_nodes_def add_OP_node_dangling ex_start_fields)
  note T1 = construction_errors_propagate
    [where i = 0 and pre = "[]" and s = "new_graph [] 1 []" and ?s1.0 = "new_graph [] 1 []"
       and x = "TraceInput SizesNone" and post = ex_inputs]
  note T2 = construction_errors_propagate
    [where j = 0 and ops = "[]" and st = "(0, ex_start)" and ne = 0 and ?s2.0 = ex_start
       and tn = "ex_relu\<lparr>inputs := [5]\<rparr>" and rest = "[]"]
  note T3 = construction_errors_propagate
    [where t = ex_shapeless and layers = "[]" and n = 1 and names = "[]" and e' = TypeError
       and weights = Map.empty]
  note T4 = construction_errors_propagate
    [where t = ex_dangling and layers = "[]" and n = 1 and names = "[]" and e' = IndexError
       and ?s3.0 = ex_start and weights = Map.empty]
  have r1: "add_IO_nodes_from 0 ([] @ TraceInput SizesNone # ex_inputs) (new_graph [] 1 []) = Inl TypeError"
    using T1 a1 a2 by blast
  have r2: "add_OP_nodes_from 0 ([] @ ex_relu\<lparr>inputs := [5]\<rparr> # []) (0, ex_start) = Inl IndexError"
    using T2 b1 b2 b3 by blast
  have r3: "Graph_init [] 1 [] ex_shapeless Map.empty (Inl TypeError)"
    using T3 d1 by blast
  have r4: "Graph_init [] 1 [] ex_dangling Map.empty (Inl IndexError)"
    using T4 e1 e2 by blast
  from a1 a2 r1 b1 b2 b3 r2 d1 r3 e1 e2 r4 show ?thesis by (intro conjI)
qed

text \<open>
  C3, as the specification states it, fails in the classes of the errors: the source
  defines none. The constructor on the trace with the shapeless input ends in Python's
  \<open>TypeError\<close>, the one on the trace with the dangling reference in \<open>IndexError\<close>, and in
  nothing else.
\<close>

theorem construction_errors_are_builtin:
  "Graph_init [] 1 [] ex_shapeless Map.empty (Inl TypeError)
   \<and> \<not> Graph_init [] 1 [] ex_shapeless Map.empty (Inl ShapeResolutionError)
   \<and> Graph_init [] 1 [] ex_dangling Map.empty (Inl IndexError)
   \<and> \<not> Graph_init [] 1 [] ex_dangling Map.empty (Inl DanglingReferenceError)"
proof -
  have d1: "add_IO_nodes (graph_inputs ex_shapeless) (new_graph [] 1 []) = Inl TypeError"
    by (simp add: ex_shapeless_def add_IO_nodes_def add_IO_node_def)
  have e1: "add_IO_nodes (graph_inputs ex_dangling) (new_graph [] 1 []) = Inr ex_start"
    using ex_start_built by (simp add: ex_dangling_def)
  have e2: "add_OP_nodes (graph_nodes ex_dangling) ex_start = Inl IndexError"
    by (simp add: ex_dangling_def add_OP_nodes_def add_OP_node_dangling ex_start_fields)
  have "\<forall>r. build_graph ex_shapeless (new_graph [] 1 []) r \<longleftrightarrow> r = Inl TypeError"
    using build_graph_IO_error [OF d1] by blast
  then have A: "\<forall>r. Graph_init [] 1 [] ex_shapeless Map.empty r \<longleftrightarrow> r = Inl TypeError"
    by (rule Graph_init_error)
  have "\<forall>r. build_graph ex_dangling (new_graph [] 1 []) r \<longleftrightarrow> r = Inl IndexError"
    using build_graph_OP_error [OF e1 e2] by blast
  then have B: "\<forall>r. Graph_init [] 1 [] ex_dangling Map.empty r \<longleftrightarrow> r = Inl IndexError"
    by (rule Graph_init_error)
  show ?thesis using A B by simp
qed

section \<open>The graphs the constructor returns\<close>

lemma add_IO_node_ok:
  assumes ok: "heap_ok s" and run: "add_IO_node i x s = Inr s'"
  shows "heap_ok s' \<and> length (nodes s') = Suc (length (nodes s))
     \<and> num_inputs_buffs_params s' = Suc (num_inputs_buffs_params s)"
  using assms
  by (auto simp: add_IO_node_def Node_init_def new_set_def Let_def heap_ok_def less_Suc_eq
      split: sizes_result.splits if_splits)

lemma add_IO_nodes_from_ok:
  "heap_ok s \<Longrightarrow> length (nodes s) = num_inputs_buffs_params s \<Longrightarrow> add_IO_nodes_from i xs s = Inr s'
     \<Longrightarrow> heap_ok s' \<and> length (nodes s') = num_inputs_buffs_params s'"
proof (induction xs arbitrary: i s)
  case Nil
  then show ?case by simp
next
  case (Cons x xs)
  from Cons.prems(3) obtain s1 where a: "add_IO_node i x s = Inr s1"
    and b: "add_IO_nodes_from (Suc i) xs s1 = Inr s'"
    by (auto split: sum.splits)
  note k = add_IO_node_ok [OF Cons.prems(1) a]
  show ?case
    using Cons.IH [OF _ _ b] k Cons.prems(2) by simp
qed

lemma add_output_node_counter:
  "add_output_node node_idx P i (ne, s) = Inr (ne', s')
     \<Longrightarrow> num_inputs_buffs_params s' = num_inputs_buffs_params s"
  by (auto simp: add_output_node_def new_set_def Let_def add_in_node_def add_out_node_def
      split: if_splits)

lemma add_output_nodes_counter:
  "add_output_nodes node_idx P is (ne, s) = Inr (ne', s')
     \<Longrightarrow> num_inputs_buffs_params s' = num_inputs_buffs_params s"
proof (induction "is" arbitrary: ne s)
  case Nil
  then show ?case by simp
next
  case (Cons i "is")
  from Cons.prems obtain ne1 s1 where a: "add_output_node node_idx P i (ne, s) = Inr (ne1, s1)"
    and b: "add_output_nodes node_idx P is (ne1, s1) = Inr (ne', s')"
    by (auto split: sum.splits)
  show ?case using Cons.IH [OF b] add_output_node_counter [OF a] by simp
qed

lemma add_OP_node_ok:
  assumes ok: "heap_ok s" and len: "length (nodes s) = num_inputs_buffs_params s + i + ne"
    and run: "add_OP_node i tn (ne, s) = Inr (ne', s')"
  shows "heap_ok s' \<and> length (nodes s') = num_inputs_buffs_params s' + Suc i + ne'"
proof -
  from run obtain node_idx P s4 where prim: "add_primary_node i tn (ne, s) = Inr (node_idx, P, s4)"
    and outs: "add_output_nodes node_idx P [0 ..< length (outputs tn)] (ne, s4) = Inr (ne', s')"
    by (auto simp: add_OP_node_def split: sum.splits)
  note p = add_primary_node_step [OF ok prim]
  let ?k = "length (outputs tn)"
  have k: "0 < ?k" using p by simp
  have ok4: "heap_ok s4" and P4: "P < next_node s4" and len4: "length (nodes s4) = node_idx + 1"
    using p len by simp_all
  have split: "[0 ..< ?k] = 0 # [1 ..< ?k]" using k by (simp add: upt_rec [of 0])
  have first: "add_output_node node_idx P 0 (ne, s4) = Inr (ne, s4)"
    by (simp add: add_output_node_def)
  obtain t where run': "add_output_nodes node_idx P [1 ..< ?k] (ne, s4) = Inr (ne + (?k - 1), t)"
    and okt: "heap_ok t" and lent: "length (nodes t) = node_idx + ?k"
    using add_output_nodes_run [OF ok4 P4 _ _ len4, of ?k ne] k by auto
  have "add_output_nodes node_idx P [0 ..< ?k] (ne, s4) = Inr (ne + (?k - 1), t)"
    using run' first by (simp add: split)
  with outs have eq: "ne' = ne + (?k - 1)" "s' = t" by simp_all
  have "num_inputs_buffs_params s' = num_inputs_buffs_params s"
    using add_output_nodes_counter [OF outs] p by simp
  then show ?thesis
    using okt lent eq p len k by simp
qed

lemma add_OP_nodes_from_ok:
  "heap_ok s \<Longrightarrow> length (nodes s) = num_inputs_buffs_params s + i + ne
     \<Longrightarrow> add_OP_nodes_from i ops (ne, s) = Inr (ne', s') \<Longrightarrow> heap_ok s'"
proof (induction ops arbitrary: i ne s)
  case Nil
  then show ?case by simp
next
  case (Cons tn ops)
  from Cons.prems(3) obtain ne1 s1 where a: "add_OP_node i tn (ne, s) = Inr (ne1, s1)"
    and b: "add_OP_nodes_from (Suc i) ops (ne1, s1) = Inr (ne', s')"
    by (auto split: sum.splits)
  note k = add_OP_node_ok [OF Cons.prems(1,2) a]
  show ?case using Cons.IH [OF _ _ b] k by simp
qed

lemma sweep_kept:
  assumes "sweep c ns s kept changed s'"
  shows "set kept \<subseteq> set ns \<and> (distinct ns \<longrightarrow> distinct kept)
     \<and> node_heap s' = node_heap s \<and> next_node s' = next_node s \<and> next_set s' = next_set s"
  using assms
proof (induction rule: sweep.induct)
  case (sweep_Nil condition s)
  show ?case by simp
next
  case (sweep_remove condition s node s1 rest kept changed s2)
  have "node_heap s1 = node_heap s \<and> next_node s1 = next_node s \<and> next_set s1 = next_set s"
    using disconnect_removes [OF sweep_remove.hyps(2)] by (simp add: removes_only_def)
  then show ?case using sweep_remove.IH by auto
next
  case (sweep_keep condition s node rest kept changed s2)
  then show ?case by auto
qed

lemma heap_ok_kept:
  assumes "heap_ok s" "set kept \<subseteq> set (nodes s)" "distinct kept"
    "node_heap s1 = node_heap s" "next_node s1 = next_node s" "next_set s1 = next_set s"
  shows "heap_ok (s1\<lparr>nodes := kept\<rparr>)"
  using assms by (auto simp: heap_ok_def)

lemma remove_nodes_ok:
  assumes "remove_nodes c rv s s'" "heap_ok s"
  shows "heap_ok s'"
  using assms
proof (induction rule: remove_nodes.induct)
  case (remove_nodes_done condition reverse s kept s1)
  note k = sweep_kept [OF remove_nodes_done.hyps]
  have "distinct (nodes s)" using remove_nodes_done.prems by (simp add: heap_ok_def)
  then show ?case
    using heap_ok_kept [OF remove_nodes_done.prems, of kept s1] k by (simp split: if_splits)
next
  case (remove_nodes_again condition reverse s kept s1 s2)
  note k = sweep_kept [OF remove_nodes_again.hyps(1)]
  have "distinct (nodes s)" using remove_nodes_again.prems by (simp add: heap_ok_def)
  then have "heap_ok (s1\<lparr>nodes := kept\<rparr>)"
    using heap_ok_kept [OF remove_nodes_again.prems, of kept s1] k by (simp split: if_splits)
  then show ?case by (rule remove_nodes_again.IH)
qed

lemma build_graph_ok:
  assumes "build_graph t (new_graph layers n names) (Inr s)"
  shows "distinct (nodes s) \<and> idx_is_position s"
  using assms
proof (cases rule: build_graph.cases)
  case (build_done s1 s2 s3 s4)
  have ok0: "heap_ok (new_graph layers n names)" by (simp add: heap_ok_def new_graph_def)
  have ok1: "heap_ok s1" and len1: "length (nodes s1) = num_inputs_buffs_params s1"
    using add_IO_nodes_from_ok [OF ok0, of 0 "graph_inputs t" s1] build_done(2)
    by (simp_all add: add_IO_nodes_def new_graph_def)
  from build_done(3) obtain ne where "add_OP_nodes_from 0 (graph_nodes t) (0, s1) = Inr (ne, s2)"
    by (auto simp: add_OP_nodes_def split: sum.splits)
  then have ok2: "heap_ok s2" using add_OP_nodes_from_ok [OF ok1, of 0 0] len1 by simp
  have ok3: "heap_ok s3"
    using remove_nodes_ok [OF _ ok2] build_done(4) by (simp add: remove_constant_nodes_def)
  have ok4: "heap_ok s4"
    using build_done(5) remove_nodes_ok [OF _ ok3]
    by (auto simp: remove_nodes_that_go_nowhere.simps)
  have d: "distinct (nodes s4)" using ok4 by (simp add: heap_ok_def)
  have "nodes (normalize_indices s4) = nodes s4"
    by (simp add: normalize_indices_def fold_set_idx_nodes)
  moreover have "\<forall>i < length (nodes s4). idx (node_heap (normalize_indices s4) (nodes s4 ! i)) = i"
    using fold_set_idx_position [OF d, of _ 0 s4] by (simp add: normalize_indices_def)
  ultimately show ?thesis using d by (simp add: build_done(1) idx_is_position_def)
qed

text \<open>
  Every graph that \<open>Graph(...)\<close> returns holds no node object twice, and the index of each
  of its nodes is the node's position: the indices along the list of nodes are
  \<open>0, ..., N - 1\<close>.
\<close>

theorem constructed_graph_indices:
  assumes "Graph_init layers n names t weights (Inr g)"
  shows "distinct (nodes g) \<and> idx_is_position g
     \<and> map (\<lambda>n. idx (node_heap g n)) (nodes g) = [0 ..< length (nodes g)]"
proof -
  from assms obtain s where b: "build_graph t (new_graph layers n names) (Inr s)"
    and g: "g = apply_weights weights s"
    by (auto simp: Graph_init.simps)
  note k = build_graph_ok [OF b]
  have fr: "apply_weights weights s = s\<lparr>node_heap := node_heap (apply_weights weights s)\<rparr>"
    unfolding apply_weights_def by (rule fold_set_weight_frame)
  have n: "nodes g = nodes s"
    by (subst g, subst fr) simp
  have i: "idx (node_heap g m) = idx (node_heap s m)" for m
    by (simp add: g apply_weights_def fold_set_weight)
  have p: "idx_is_position g" using k by (simp add: idx_is_position_def n i)
  have "map (\<lambda>n. idx (node_heap g n)) (nodes g) = [0 ..< length (nodes g)]"
    using p by (intro nth_equalityI) (simp_all add: idx_is_position_def)
  then show ?thesis using k p by (simp add: n)
qed

theorem constructed_graph_indices_witness:
  "\<exists>g. Graph_init [] 1 [] ex_trace Map.empty (Inr g) \<and> distinct (nodes g) \<and> idx_is_position g
     \<and> map (\<lambda>n. idx (node_heap g n)) (nodes g) = [0 ..< length (nodes g)]"
proof -
  have io: "add_IO_nodes (graph_inputs ex_trace) (new_graph [] 1 []) = Inr ex_start"
    using ex_start_built by (simp add: ex_trace_def)
  have op: "add_OP_nodes (graph_nodes ex_trace) ex_start = Inr ex_two"
    by (simp add: ex_trace_def ex_two_def ex_relu_def ex_start_def ex_inputs_def run_defs)
  have out: "out_indices_of (graph_outputs ex_trace) = Inr [1]"
    by (simp add: ex_trace_def)
  have fin: "\<forall>r. finite (set_heap (new_graph [] 1 []) r)" by (simp add: new_graph_def)
  obtain r where b: "build_graph ex_trace (new_graph [] 1 []) r"
    using build_graph_total [OF fin] by blast
  have "\<not> build_graph ex_trace (new_graph [] 1 []) (Inl e)" for e
    using io op out by (auto simp: build_graph.simps remove_nodes_that_go_nowhere.simps)
  with b obtain s where "build_graph ex_trace (new_graph [] 1 []) (Inr s)"
    by (cases r) auto
  from Graph_init_returns [OF this, of Map.empty]
  have G: "Graph_init [] 1 [] ex_trace Map.empty (Inr (apply_weights Map.empty s))" .
  from constructed_graph_indices [OF G] G show ?thesis by blast
qed

end
